theory Spec2Isabelle
  imports Main "HOL-Library.Word"
begin

section \<open>MC protocol client (4E frames): a shallow embedding of MCProtocol.ts\<close>

text \<open>
  Conventions of the embedding.
  \<^item> A \<open>Buffer\<close> is a list of bytes (\<open>8 word\<close>); \<open>Buffer.concat\<close> is \<open>@\<close>,
    \<open>subarray(0, n)\<close> is \<open>take n\<close> and \<open>subarray(n)\<close> is \<open>drop n\<close>.
  \<^item> A JavaScript \<open>number\<close> that the code uses as an integer is an \<open>int\<close>; fractions,
    \<open>NaN\<close> and integers beyond the exactly representable range are outside the model.
  \<^item> Every \<open>throw\<close> is a value \<open>Inl e\<close> of the result type \<open>error + 'a\<close>. All errors of
    the class \<open>MCProtocolError\<close> are told apart by their message; the range errors
    raised by the \<open>Buffer\<close> accessors are \<open>RangeError\<close>.
\<close>

subsection \<open>Errors and results\<close>

type_synonym byte = "8 word"

datatype error =
    ConnectionTimeout                 \<comment> \<open>'Connection timeout'\<close>
  | ConnectionError                   \<comment> \<open>'Connection error: ...'\<close>
  | NotConnected                      \<comment> \<open>'Not connected to PLC', 'Not connected'\<close>
  | NoDataReceived string             \<comment> \<open>'No data received for ...'\<close>
  | UnknownEncodeMode string          \<comment> \<open>'Unknown encode mode: ...'\<close>
  | InvalidDevice string              \<comment> \<open>'Invalid device: ...'\<close>
  | UnknownDeviceType string          \<comment> \<open>'Unknown device type: ...'\<close>
  | RequestTimeout                    \<comment> \<open>'Request timeout'\<close>
  | WriteError                        \<comment> \<open>'Write error: ...'\<close>
  | InvalidSubheader int              \<comment> \<open>'Invalid subheader: 0x...'\<close>
  | PlcError int                      \<comment> \<open>'PLC error: 0x...', with \<open>plcErrorCode\<close>\<close>
  | ConnectionClosed                  \<comment> \<open>'Connection closed'\<close>
  | InvalidAddressFormat string       \<comment> \<open>'Invalid register format: ...'\<close>
  | RangeError                        \<comment> \<open>\<open>ERR_OUT_OF_RANGE\<close> of a \<open>Buffer\<close> read or write\<close>

definition bindE :: "'e + 'a \<Rightarrow> ('a \<Rightarrow> 'e + 'b) \<Rightarrow> 'e + 'b" where
  "bindE m f = (case m of Inl e \<Rightarrow> Inl e | Inr x \<Rightarrow> f x)"

subsection \<open>Connection options\<close>

datatype plc_type = Q | iQ_R | iQ_L | L | QnA

record options =
  plcType :: plc_type
  timeout :: nat

subsection \<open>Buffer writers\<close>

text \<open>
  \<open>leBytes n v\<close> are the \<open>n\<close> low bytes of \<open>v\<close>, least significant first: what
  \<open>writeUIntLE\<close>, \<open>writeUInt16LE\<close>, \<open>writeInt16LE\<close>, ... store once the range check has
  passed (each byte is \<open>value\<close>, then \<open>value >>> 8\<close>, ..., truncated to 8 bits).
\<close>

definition leBytes :: "nat \<Rightarrow> int \<Rightarrow> byte list" where
  "leBytes n v = map (\<lambda>k. word_of_int (v div 256 ^ k)) [0..<n]"

text \<open>The unsigned writers fail unless \<open>0 \<le> v < 2 ^ (8 * n)\<close>.\<close>

definition writeUIntLE :: "int \<Rightarrow> nat \<Rightarrow> error + byte list" where
  "writeUIntLE v n = (if 0 \<le> v \<and> v < 2 ^ (8 * n) then Inr (leBytes n v) else Inl RangeError)"

text \<open>The signed writers fail unless \<open>- 2 ^ (8 * n - 1) \<le> v < 2 ^ (8 * n - 1)\<close>.\<close>

definition writeIntLE :: "int \<Rightarrow> nat \<Rightarrow> error + byte list" where
  "writeIntLE v n =
     (if - (2 ^ (8 * n - 1)) \<le> v \<and> v < 2 ^ (8 * n - 1) then Inr (leBytes n v) else Inl RangeError)"

definition writeUInt16BE :: "int \<Rightarrow> error + byte list" where
  "writeUInt16BE v = (if 0 \<le> v \<and> v < 65536 then Inr (rev (leBytes 2 v)) else Inl RangeError)"

definition encodeValue :: "int \<Rightarrow> string \<Rightarrow> bool \<Rightarrow> error + byte list" where
  "encodeValue v mode isSigned =
     (if mode = ''byte'' then (if isSigned then writeIntLE v 1 else writeUIntLE v 1)
      else if mode = ''short'' then (if isSigned then writeIntLE v 2 else writeUIntLE v 2)
      else if mode = ''long'' then (if isSigned then writeIntLE v 4 else writeUIntLE v 4)
      else Inl (UnknownEncodeMode mode))"

subsection \<open>Buffer readers\<close>

definition u16le :: "byte list \<Rightarrow> nat \<Rightarrow> int" where
  "u16le buf off = uint (buf ! off) + uint (buf ! (off + 1)) * 2 ^ 8"

definition readUInt16LE :: "byte list \<Rightarrow> nat \<Rightarrow> error + int" where
  "readUInt16LE buf off = (if off + 2 \<le> length buf then Inr (u16le buf off) else Inl RangeError)"

definition readUInt16BE :: "byte list \<Rightarrow> nat \<Rightarrow> error + int" where
  "readUInt16BE buf off =
     (if off + 2 \<le> length buf then Inr (uint (buf ! off) * 2 ^ 8 + uint (buf ! (off + 1)))
      else Inl RangeError)"

text \<open>\<open>readInt16LE\<close>: the unsigned value, minus \<open>2 ^ 16\<close> when bit 15 is set.\<close>

definition i16le :: "byte list \<Rightarrow> nat \<Rightarrow> int" where
  "i16le buf off = (let v = u16le buf off in if 32768 \<le> v then v - 65536 else v)"

definition readInt16LE :: "byte list \<Rightarrow> nat \<Rightarrow> error + int" where
  "readInt16LE buf off = (if off + 2 \<le> length buf then Inr (i16le buf off) else Inl RangeError)"

text \<open>The number a run of bytes denotes, least significant byte first.\<close>

fun leValue :: "byte list \<Rightarrow> int" where
  "leValue [] = 0"
| "leValue (b # bs) = uint b + 256 * leValue bs"

subsection \<open>Device address codec\<close>

text \<open>
  \<open>MCProtocol.DEVICE_CODES\<close>, looked up by its own keys. (A string that names a property
  of \<open>Object.prototype\<close> is outside the model.)
\<close>

definition DEVICE_CODES :: "string \<rightharpoonup> int" where
  "DEVICE_CODES = map_of
     [(''D'', 0xa8), (''R'', 0xaf), (''ZR'', 0xb0), (''M'', 0x90), (''X'', 0x9c), (''Y'', 0x9d),
      (''B'', 0xa0), (''F'', 0x93), (''V'', 0x94), (''S'', 0x98), (''SS'', 0xc9), (''SC'', 0xc6),
      (''SB'', 0xa1), (''DX'', 0xa2), (''DY'', 0xa3), (''T'', 0xc2), (''ST'', 0xc7), (''C'', 0xc5),
      (''TC'', 0xc0), (''TS'', 0xc1), (''TN'', 0xc2), (''CN'', 0xc5), (''CS'', 0xc4), (''CC'', 0xc3),
      (''W'', 0xb4), (''SW'', 0xb5), (''RD'', 0x2c), (''SD'', 0xa9), (''Z'', 0xcc)]"

definition isDigit :: "char \<Rightarrow> bool" where
  "isDigit c = (48 \<le> (of_char c :: nat) \<and> (of_char c :: nat) \<le> 57)"

definition isUpper :: "char \<Rightarrow> bool" where
  "isUpper c = (65 \<le> (of_char c :: nat) \<and> (of_char c :: nat) \<le> 90)"

text \<open>\<open>device.match(/\D+/)\<close>: the first maximal run of characters that are not digits.\<close>

definition matchNonDigits :: "string \<Rightarrow> string option" where
  "matchNonDigits device =
     (let run = takeWhile (\<lambda>c. \<not> isDigit c) (dropWhile isDigit device)
      in if run = [] then None else Some run)"

definition getDeviceBase :: "string \<Rightarrow> nat" where
  "getDeviceBase deviceType =
     (if deviceType \<in> set [''X'', ''Y'', ''B'', ''W'', ''SB'', ''SW'', ''DX'', ''DY'', ''ZR'']
      then 16 else 10)"

text \<open>\<open>Number.prototype.toString()\<close> of an integer: its decimal digits, with a sign.\<close>

fun natToString :: "nat \<Rightarrow> string" where
  "natToString n =
     (if n < 10 then [char_of (48 + n)]
      else natToString (n div 10) @ [char_of (48 + n mod 10)])"

definition numberToString :: "int \<Rightarrow> string" where
  "numberToString v = (if v < 0 then CHR ''-'' # natToString (nat (- v)) else natToString (nat v))"

text \<open>
  \<open>parseInt(s, radix)\<close>: an optional sign, then the longest run of digits of that radix;
  \<open>NaN\<close> (here \<open>None\<close>) when the run is empty. Leading white space and the prefix
  \<open>0x\<close> are not modelled: the strings parsed here come from \<open>toString\<close> of an integer or
  from a match of \<open>\d+\<close>. (A \<open>NaN\<close> passes the range check of a \<open>Buffer\<close> writer and is
  stored as 0; \<open>toString\<close> of an integer never parses to \<open>NaN\<close>.)
\<close>

definition digitValue :: "char \<Rightarrow> nat option" where
  "digitValue c =
     (let k = (of_char c :: nat) in
      if 48 \<le> k \<and> k \<le> 57 then Some (k - 48)
      else if 97 \<le> k \<and> k \<le> 122 then Some (k - 87)
      else if 65 \<le> k \<and> k \<le> 90 then Some (k - 55)
      else None)"

definition radixDigit :: "nat \<Rightarrow> char \<Rightarrow> bool" where
  "radixDigit radix c = (case digitValue c of None \<Rightarrow> False | Some d \<Rightarrow> d < radix)"

definition digitsValue :: "nat \<Rightarrow> string \<Rightarrow> nat" where
  "digitsValue radix ds = foldl (\<lambda>acc c. acc * radix + the (digitValue c)) 0 ds"

text \<open>
  \<open>parseInt\<close> returns a \<open>Number\<close>, a double: \<open>toDouble n\<close> is the double nearest to the
  integer \<open>n\<close>, a tie going to the even significand of 53 bits. It is \<open>n\<close> itself up to
  \<open>2 ^ 53 = 9007199254740992\<close>; \<open>droppedBits n\<close> is the number of low bits that do not fit. (The range of the
  doubles has an end, beyond which the result is \<open>Infinity\<close>, and for more than 20
  significant digits the standard lets \<open>parseInt\<close> approximate; both are outside the
  model.)
\<close>

function droppedBits :: "int \<Rightarrow> nat" where
  "droppedBits n = (if n < 9007199254740992 then 0 else Suc (droppedBits (n div 2)))"
  by pat_completeness auto
termination
  by (relation "measure nat") auto

definition toDouble :: "int \<Rightarrow> int" where
  "toDouble n =
     (let e = droppedBits n; q = n div 2 ^ e; r = n mod 2 ^ e
      in if 2 ^ e < 2 * r \<or> (2 * r = 2 ^ e \<and> odd q) then (q + 1) * 2 ^ e else q * 2 ^ e)"

definition parseDigits :: "string \<Rightarrow> nat \<Rightarrow> int option" where
  "parseDigits s radix =
     (let ds = takeWhile (radixDigit radix) s
      in if ds = [] then None else Some (toDouble (int (digitsValue radix ds))))"

definition parseInt :: "string \<Rightarrow> nat \<Rightarrow> int option" where
  "parseInt s radix =
     (case s of
        [] \<Rightarrow> None
      | c # cs \<Rightarrow>
          if c = CHR ''-'' then map_option uminus (parseDigits cs radix)
          else if c = CHR ''+'' then parseDigits cs radix
          else parseDigits s radix)"

definition makeDeviceData :: "options \<Rightarrow> string \<Rightarrow> int \<Rightarrow> error + byte list" where
  "makeDeviceData opts device address =
     (case matchNonDigits device of
        None \<Rightarrow> Inl (InvalidDevice device)
      | Some deviceType \<Rightarrow>
          (case DEVICE_CODES deviceType of
             None \<Rightarrow> Inl (UnknownDeviceType deviceType)
           | Some deviceCode \<Rightarrow>
               (let deviceNum =
                      (case parseInt (numberToString address) (getDeviceBase deviceType) of
                         None \<Rightarrow> 0 | Some n \<Rightarrow> n)
                in if plcType opts = iQ_R then
                     bindE (writeUIntLE deviceNum 4) (\<lambda>numBuffer.
                     bindE (writeUIntLE deviceCode 2) (\<lambda>codeBuffer.
                     Inr (numBuffer @ codeBuffer)))
                   else
                     bindE (writeUIntLE deviceNum 3) (\<lambda>numBuffer.
                     bindE (writeUIntLE deviceCode 1) (\<lambda>codeBuffer.
                     Inr (numBuffer @ codeBuffer))))))"

text \<open>
  What \<open>parseInt(n.toString(), radix)\<close> computes from a non-negative integer \<open>n\<close>: the
  decimal digits of \<open>n\<close>, read again as a numeral of that radix.
\<close>

fun rereadDigits :: "nat \<Rightarrow> nat \<Rightarrow> nat" where
  "rereadDigits radix n =
     (if n < 10 then n else rereadDigits radix (n div 10) * radix + n mod 10)"

subsection \<open>Frame builder\<close>

definition wordSize :: nat where
  "wordSize = 2"

text \<open>
  The header that both builders put in front of the request data: subheader (big endian),
  serial, reserved, network, pc, destination module i/o and station, then the length field
  \<open>wordSize + requestData.length\<close> and the timer.
\<close>

definition frame4E :: "byte list \<Rightarrow> error + byte list" where
  "frame4E requestData =
     bindE (writeUInt16BE 0x5400) (\<lambda>subheaderBuffer.
     bindE (encodeValue 0x0000 ''short'' False) (\<lambda>serial.
     bindE (encodeValue 0 ''short'' False) (\<lambda>reserved.
     bindE (encodeValue 0 ''byte'' False) (\<lambda>network.
     bindE (encodeValue 0xff ''byte'' False) (\<lambda>pc.
     bindE (encodeValue 0x03ff ''short'' False) (\<lambda>dest_moduleio.
     bindE (encodeValue 0x00 ''byte'' False) (\<lambda>dest_modulesta.
     bindE (encodeValue (int (wordSize + length requestData)) ''short'' False) (\<lambda>len.
     bindE (encodeValue 4 ''short'' False) (\<lambda>timer.
     Inr (subheaderBuffer @ serial @ reserved @ network @ pc @ dest_moduleio @ dest_modulesta
          @ len @ timer @ requestData))))))))))"

definition subcommand :: "options \<Rightarrow> int" where
  "subcommand opts = (if plcType opts = iQ_R then 0x0002 else 0x0000)"

text \<open>The \<open>requestData\<close> of \<open>create4EReadFrame\<close>.\<close>

definition readRequestData :: "options \<Rightarrow> string \<Rightarrow> int \<Rightarrow> int \<Rightarrow> error + byte list" where
  "readRequestData opts device address count =
     bindE (encodeValue 0x0401 ''short'' False) (\<lambda>command.
     bindE (encodeValue (subcommand opts) ''short'' False) (\<lambda>sub.
     bindE (makeDeviceData opts device address) (\<lambda>deviceData.
     bindE (encodeValue count ''short'' False) (\<lambda>cnt.
     Inr (command @ sub @ deviceData @ cnt)))))"

definition create4EReadFrame :: "options \<Rightarrow> string \<Rightarrow> int \<Rightarrow> int \<Rightarrow> error + byte list" where
  "create4EReadFrame opts device address count =
     bindE (readRequestData opts device address count) frame4E"

text \<open>The loop of \<open>create4EWriteFrame\<close> that appends one signed short per value.\<close>

fun appendValues :: "byte list \<Rightarrow> int list \<Rightarrow> error + byte list" where
  "appendValues requestData [] = Inr requestData"
| "appendValues requestData (v # vs) =
     bindE (encodeValue v ''short'' True) (\<lambda>b. appendValues (requestData @ b) vs)"

text \<open>The \<open>requestData\<close> of \<open>create4EWriteFrame\<close>.\<close>

definition writeRequestData :: "options \<Rightarrow> string \<Rightarrow> int \<Rightarrow> int list \<Rightarrow> error + byte list" where
  "writeRequestData opts device address vals =
     bindE (encodeValue 0x1401 ''short'' False) (\<lambda>command.
     bindE (encodeValue (subcommand opts) ''short'' False) (\<lambda>sub.
     bindE (makeDeviceData opts device address) (\<lambda>deviceData.
     bindE (encodeValue (int (length vals)) ''short'' False) (\<lambda>cnt.
     appendValues (command @ sub @ deviceData @ cnt) vals))))"

definition create4EWriteFrame :: "options \<Rightarrow> string \<Rightarrow> int \<Rightarrow> int list \<Rightarrow> error + byte list" where
  "create4EWriteFrame opts device address vals =
     bindE (writeRequestData opts device address vals) frame4E"

text \<open>
  The length of the header up to and including the length field (the \<open>13\<close> of
  \<open>handleResponse\<close>: 2 + 2 + 2 + 1 + 1 + 2 + 1 + 2).
\<close>

definition fixedHeaderLength :: nat where
  "fixedHeaderLength = 13"

subsection \<open>Response validation and decoding\<close>

definition validateResponse :: "byte list \<Rightarrow> error + unit" where
  "validateResponse response =
     bindE (readUInt16BE response 0) (\<lambda>subheader.
     if subheader \<noteq> 0xd400 then Inl (InvalidSubheader subheader)
     else
       bindE (readUInt16LE response 9) (\<lambda>dataLength.
       if 15 \<le> length response then
         bindE (readUInt16LE response 13) (\<lambda>errorCode.
         if errorCode \<noteq> 0x0000 then Inl (PlcError errorCode) else Inr ())
       else Inr ()))"

text \<open>
  The loop of \<open>parseReadResponse\<close>: \<open>i\<close> runs from \<open>dataStart\<close> in steps of 2; a value is
  read only when \<open>i + 1 < response.length\<close>, so that \<open>readInt16LE\<close> is in range.
\<close>

function parseLoop :: "byte list \<Rightarrow> nat \<Rightarrow> int list \<Rightarrow> int list" where
  "parseLoop response i vals =
     (if i < length response then
        (if i + 1 < length response
         then parseLoop response (i + 2) (vals @ [i16le response i])
         else parseLoop response (i + 2) vals)
      else vals)"
  by pat_completeness auto
termination
  by (relation "measure (\<lambda>(response, i, vals). length response - i)") auto

definition parseReadResponse :: "byte list \<Rightarrow> error + int list" where
  "parseReadResponse response =
     bindE (validateResponse response) (\<lambda>_. Inr (parseLoop response 15 []))"

subsection \<open>The engine and its runtime\<close>

text \<open>
  The first six fields are those of the class. A pending request is identified by its
  request id: the entry of the map \<open>pendingRequests\<close> under key \<open>i\<close> holds the
  continuations of the promise that \<open>sendRequest\<close> returned for \<open>i\<close> and the handle of
  the timer armed for \<open>i\<close>; the map is kept as the list of its keys in insertion order.

  The other fields are the part of the Node runtime that the class acts on: the sockets
  made so far and the calls of \<open>destroy\<close>, the armed timers (\<open>setTimeout\<close> adds one,
  \<open>clearTimeout\<close> and firing remove it), the socket writes whose callback has not run yet,
  the frames handed to \<open>socket.write\<close>, and, in \<open>settled\<close>, every call of a request's
  \<open>resolve\<close> or \<open>reject\<close> continuation, in the order of the calls.
\<close>

datatype settlement = Resolved "byte list" | Rejected error

record engine =
  options :: options
  socket :: "nat option"
  isConnected :: bool
  responseBuffer :: "byte list"
  pendingRequests :: "nat list"
  requestCounter :: nat
  socketsCreated :: nat
  destroyed :: "nat list"
  connectTimers :: "nat set"
  timers :: "nat set"
  writing :: "nat set"
  written :: "(nat \<times> byte list) list"
  settled :: "(nat \<times> settlement) list"

definition initial :: "options \<Rightarrow> engine" where
  "initial opts =
     \<lparr>options = opts, socket = None, isConnected = False, responseBuffer = [],
      pendingRequests = [], requestCounter = 0, socketsCreated = 0, destroyed = [],
      connectTimers = {}, timers = {}, writing = {}, written = [], settled = []\<rparr>"

text \<open>\<open>settle\<close> is a call of the continuation of request \<open>i\<close>; \<open>clearTimeout\<close> disarms its timer.\<close>

definition settle :: "nat \<Rightarrow> settlement \<Rightarrow> engine \<Rightarrow> engine" where
  "settle i r w = w\<lparr>settled := settled w @ [(i, r)]\<rparr>"

definition clearTimeout :: "nat \<Rightarrow> engine \<Rightarrow> engine" where
  "clearTimeout i w = w\<lparr>timers := timers w - {i}\<rparr>"

definition pendingDelete :: "nat \<Rightarrow> engine \<Rightarrow> engine" where
  "pendingDelete i w = w\<lparr>pendingRequests := removeAll i (pendingRequests w)\<rparr>"

definition pendingSet :: "nat \<Rightarrow> engine \<Rightarrow> engine" where
  "pendingSet i w =
     w\<lparr>pendingRequests :=
         (if i \<in> set (pendingRequests w) then pendingRequests w else pendingRequests w @ [i])\<rparr>"

datatype connect_result = ResolvedNow | Connecting nat

text \<open>
  \<open>connect\<close>: when not yet connected, a new socket \<open>k\<close> is made, the connect timer set and
  the handlers of \<open>k\<close> registered; the promise stays pending until one of them runs.
\<close>

definition connect :: "engine \<Rightarrow> connect_result \<times> engine" where
  "connect w =
     (if isConnected w then (ResolvedNow, w)
      else
        (let k = socketsCreated w
         in (Connecting k,
             w\<lparr>socket := Some k, socketsCreated := k + 1,
               connectTimers := insert k (connectTimers w)\<rparr>)))"

text \<open>The callback of \<open>socket.connect\<close> and the handler of \<open>'error'\<close> of socket \<open>k\<close>.\<close>

definition onConnected :: "nat \<Rightarrow> engine \<Rightarrow> engine" where
  "onConnected k w = w\<lparr>connectTimers := connectTimers w - {k}, isConnected := True\<rparr>"

definition onError :: "nat \<Rightarrow> engine \<Rightarrow> engine" where
  "onError k w = w\<lparr>connectTimers := connectTimers w - {k}, isConnected := False\<rparr>"

text \<open>The connect timer of socket \<open>k\<close> fires: \<open>this.socket?.destroy()\<close>.\<close>

definition onConnectTimeout :: "nat \<Rightarrow> engine \<Rightarrow> engine" where
  "onConnectTimeout k w =
     w\<lparr>connectTimers := connectTimers w - {k},
       destroyed := (case socket w of None \<Rightarrow> destroyed w | Some s \<Rightarrow> destroyed w @ [s])\<rparr>"

definition cleanup :: "engine \<Rightarrow> engine" where
  "cleanup w =
     (let w1 = w\<lparr>isConnected := False, responseBuffer := []\<rparr>;
          w2 = fold (\<lambda>requestId v. settle requestId (Rejected ConnectionClosed)
                                      (clearTimeout requestId v))
                 (pendingRequests w1) w1
      in w2\<lparr>pendingRequests := []\<rparr>)"

text \<open>The handler of \<open>'close'\<close>.\<close>

definition onClose :: "engine \<Rightarrow> engine" where
  "onClose w = cleanup (w\<lparr>isConnected := False\<rparr>)"

definition disconnect :: "engine \<Rightarrow> engine" where
  "disconnect w =
     (case socket w of
        None \<Rightarrow> w
      | Some s \<Rightarrow> if \<not> isConnected w then w else cleanup (w\<lparr>destroyed := destroyed w @ [s]\<rparr>))"

text \<open>
  \<open>sendRequest\<close>: the result is the rejection \<open>'Not connected'\<close>, or the id under which the
  request is now pending.
\<close>

definition sendRequest :: "engine \<Rightarrow> byte list \<Rightarrow> (error + nat) \<times> engine" where
  "sendRequest w frame =
     (if socket w = None \<or> \<not> isConnected w then (Inl NotConnected, w)
      else
        (let requestId = requestCounter w + 1;
             w1 = w\<lparr>requestCounter := requestId, timers := insert requestId (timers w)\<rparr>;
             w2 = pendingSet requestId w1
         in (Inr requestId,
             w2\<lparr>writing := insert requestId (writing w2),
                written := written w2 @ [(requestId, frame)]\<rparr>)))"

text \<open>The timer of request \<open>i\<close> fires.\<close>

definition onTimeout :: "nat \<Rightarrow> engine \<Rightarrow> engine" where
  "onTimeout i w =
     settle i (Rejected RequestTimeout) (pendingDelete i (w\<lparr>timers := timers w - {i}\<rparr>))"

text \<open>The callback of the \<open>socket.write\<close> of request \<open>i\<close>, with or without an error.\<close>

definition onWrite :: "nat \<Rightarrow> bool \<Rightarrow> engine \<Rightarrow> engine" where
  "onWrite i err w =
     (let w1 = w\<lparr>writing := writing w - {i}\<rparr>
      in if err then settle i (Rejected WriteError) (clearTimeout i (pendingDelete i w1))
         else w1)"

definition processResponse :: "engine \<Rightarrow> byte list \<Rightarrow> engine" where
  "processResponse w response =
     (case pendingRequests w of
        [] \<Rightarrow> w
      | requestId # _ \<Rightarrow>
          (let w1 = clearTimeout requestId (pendingDelete requestId w)
           in case validateResponse response of
                Inr _ \<Rightarrow> settle requestId (Resolved response) w1
              | Inl e \<Rightarrow> settle requestId (Rejected e) w1))"

text \<open>
  The loop of \<open>handleResponse\<close>. Besides the new state it returns the frames it cut off,
  in order (each is the argument of one call of \<open>processResponse\<close>). The read of the
  length field is in range, since the buffer holds at least 13 bytes.
\<close>

function extractLoop :: "engine \<Rightarrow> byte list list \<times> engine" where
  "extractLoop w =
     (if 13 \<le> length (responseBuffer w) then
        (let dataLength = nat (u16le (responseBuffer w) 11);
             totalLength = 13 + dataLength
         in if totalLength \<le> length (responseBuffer w) then
              (let response = take totalLength (responseBuffer w);
                   w1 = w\<lparr>responseBuffer := drop totalLength (responseBuffer w)\<rparr>;
                   r = extractLoop (processResponse w1 response)
               in (response # fst r, snd r))
            else ([], w))
      else ([], w))"
  by pat_completeness auto
termination
  by (relation "measure (\<lambda>w. length (responseBuffer w))")
     (auto simp: processResponse_def settle_def clearTimeout_def pendingDelete_def Let_def
           split: list.splits sum.splits)

definition handleResponse :: "engine \<Rightarrow> byte list \<Rightarrow> byte list list \<times> engine" where
  "handleResponse w data = extractLoop (w\<lparr>responseBuffer := responseBuffer w @ data\<rparr>)"

text \<open>Chunks arriving one after the other; the frames cut off are collected.\<close>

fun feed :: "engine \<Rightarrow> byte list list \<Rightarrow> byte list list \<times> engine" where
  "feed w [] = ([], w)"
| "feed w (chunk # chunks) =
     (let r = handleResponse w chunk; r' = feed (snd r) chunks in (fst r @ fst r', snd r'))"

text \<open>A complete response: its length is what its length field at offset 11 says.\<close>

definition completeFrame :: "byte list \<Rightarrow> bool" where
  "completeFrame f = (13 \<le> length f \<and> length f = 13 + nat (u16le f 11))"

subsection \<open>Events\<close>

text \<open>
  Each handler runs to completion, so a run of the engine is a sequence of calls and of
  callbacks of the runtime. A callback that the runtime cannot make leaves the state as it
  is: a socket has handlers once \<open>connect\<close> has made it, a timer fires only while it is
  armed, and the callback of a write runs once.
\<close>

datatype event =
    CallConnect
  | CallDisconnect
  | CallSendRequest "byte list"
  | SocketConnected nat
  | SocketError nat
  | SocketClose nat
  | SocketData nat "byte list"
  | ConnectTimeout nat
  | WriteCallback nat bool
  | TimeoutFires nat

fun fire :: "event \<Rightarrow> engine \<Rightarrow> engine" where
  "fire CallConnect w = snd (connect w)"
| "fire CallDisconnect w = disconnect w"
| "fire (CallSendRequest frame) w = snd (sendRequest w frame)"
| "fire (SocketConnected k) w = (if k < socketsCreated w then onConnected k w else w)"
| "fire (SocketError k) w = (if k < socketsCreated w then onError k w else w)"
| "fire (SocketClose k) w = (if k < socketsCreated w then onClose w else w)"
| "fire (SocketData k data) w = (if k < socketsCreated w then snd (handleResponse w data) else w)"
| "fire (ConnectTimeout k) w = (if k \<in> connectTimers w then onConnectTimeout k w else w)"
| "fire (WriteCallback i err) w = (if i \<in> writing w then onWrite i err w else w)"
| "fire (TimeoutFires i) w = (if i \<in> timers w then onTimeout i w else w)"

definition run :: "event list \<Rightarrow> engine \<Rightarrow> engine" where
  "run es w = fold fire es w"

subsection \<open>Reading registers by name\<close>

record deviceAddress =
  device :: string
  address :: int
  count :: "int option"

text \<open>
  \<open>reg.match(/^([A-Z]+)(\d+)$/)\<close>: the two groups, when the whole string is a non-empty
  run of upper-case letters followed by a non-empty run of digits.
\<close>

definition matchRegister :: "string \<Rightarrow> (string \<times> string) option" where
  "matchRegister reg =
     (let letters = takeWhile isUpper reg; digits = dropWhile isUpper reg
      in if letters \<noteq> [] \<and> digits \<noteq> [] \<and> list_all isDigit digits
         then Some (letters, digits) else None)"

text \<open>
  \<open>registers.map(...)\<close> of \<open>plcRead\<close>; it throws at the first name that does not match.
  (\<open>parseInt\<close> of a match of \<open>\d+\<close> is never \<open>NaN\<close>.)
\<close>

fun plcReadAddresses :: "string list \<Rightarrow> error + deviceAddress list" where
  "plcReadAddresses [] = Inr []"
| "plcReadAddresses (reg # regs) =
     (case matchRegister reg of
        None \<Rightarrow> Inl (InvalidAddressFormat reg)
      | Some (letters, digits) \<Rightarrow>
          bindE (plcReadAddresses regs) (\<lambda>rest.
          Inr (\<lparr>device = letters,
                address = (case parseInt digits 10 of None \<Rightarrow> 0 | Some v \<Rightarrow> v),
                count = None\<rparr> # rest)))"

text \<open>
  An \<open>async\<close> operation up to its first suspension: it has failed, or finished, or it
  awaits the response to a request.
\<close>

datatype progress = Failed error | Finished | Awaiting nat

text \<open>\<open>addr.count || 1\<close>.\<close>

definition countOr1 :: "int option \<Rightarrow> int" where
  "countOr1 c = (case c of None \<Rightarrow> 1 | Some n \<Rightarrow> if n = 0 then 1 else n)"

definition batchReadWordUnits :: "engine \<Rightarrow> deviceAddress list \<Rightarrow> progress \<times> engine" where
  "batchReadWordUnits w addresses =
     (if \<not> isConnected w \<or> socket w = None then (Failed NotConnected, w)
      else
        (case addresses of
           [] \<Rightarrow> (Finished, w)
         | addr # _ \<Rightarrow>
             (case create4EReadFrame (options w) (device addr) (address addr) (countOr1 (count addr)) of
                Inl e \<Rightarrow> (Failed e, w)
              | Inr frame \<Rightarrow>
                  (case sendRequest w frame of
                     (Inl e, w') \<Rightarrow> (Failed e, w')
                   | (Inr requestId, w') \<Rightarrow> (Awaiting requestId, w')))))"

definition plcRead :: "engine \<Rightarrow> string list \<Rightarrow> progress \<times> engine" where
  "plcRead w registers =
     (case plcReadAddresses registers of
        Inl e \<Rightarrow> (Failed e, w)
      | Inr addresses \<Rightarrow> batchReadWordUnits w addresses)"

text \<open>
  The pattern \<open>[A-Za-z]+[0-9]+\<close> of the description of \<open>plcRead\<close>, in its own words: letters
  of either case, then decimal digits.
\<close>

definition isLetter :: "char \<Rightarrow> bool" where
  "isLetter c = (isUpper c \<or> (97 \<le> (of_char c :: nat) \<and> (of_char c :: nat) \<le> 122))"

definition describedName :: "string \<Rightarrow> bool" where
  "describedName reg =
     (let letters = takeWhile isLetter reg; digits = dropWhile isLetter reg
      in letters \<noteq> [] \<and> digits \<noteq> [] \<and> list_all isDigit digits)"

subsection \<open>What the caller of a request receives\<close>

text \<open>
  \<open>sendRequest\<close> returns a promise, and a promise keeps the first call of its \<open>resolve\<close> or
  \<open>reject\<close>; a later call does nothing. So what the caller of request \<open>i\<close> has received is
  the first call recorded for \<open>i\<close>, if there is one.
\<close>

definition delivered :: "engine \<Rightarrow> nat \<Rightarrow> settlement option" where
  "delivered w i = map_of (settled w) i"

text \<open>
  The resolutions that the code makes: the response itself, the two errors that
  \<open>validateResponse\<close> raises of its own, the request timeout, the closed connection and the
  write error.
\<close>

fun madeByTheCode :: "settlement \<Rightarrow> bool" where
  "madeByTheCode (Resolved response) = True"
| "madeByTheCode (Rejected (PlcError code)) = True"
| "madeByTheCode (Rejected (InvalidSubheader subheader)) = True"
| "madeByTheCode (Rejected RequestTimeout) = True"
| "madeByTheCode (Rejected ConnectionClosed) = True"
| "madeByTheCode (Rejected WriteError) = True"
| "madeByTheCode (Rejected _) = False"

text \<open>
  The pending set holds each request once, the armed timers are those of the pending
  requests, every request id handed out so far is either pending or has had its
  continuation called, never both, writes are under way only for such ids, and every
  call made is one of the resolutions above.
\<close>

definition consistent :: "engine \<Rightarrow> bool" where
  "consistent w =
     (distinct (pendingRequests w) \<and>
      timers w = set (pendingRequests w) \<and>
      set (pendingRequests w) \<inter> fst ` set (settled w) = {} \<and>
      set (pendingRequests w) \<union> fst ` set (settled w) = {1..requestCounter w} \<and>
      writing w \<subseteq> {1..requestCounter w} \<and>
      (\<forall>c\<in>set (settled w). madeByTheCode (snd c)))"

text \<open>
  From \<open>w\<close> to \<open>w'\<close> continuations were called for exactly the entries that left the pending
  set, once each, and no entry was added.
\<close>

definition removes :: "engine \<Rightarrow> engine \<Rightarrow> bool" where
  "removes w w' =
     (\<exists>new. settled w' = settled w @ new \<and> distinct (map fst new) \<and>
        fst ` set new = set (pendingRequests w) - set (pendingRequests w') \<and>
        set (pendingRequests w') \<subseteq> set (pendingRequests w))"

section \<open>Properties\<close>

declare rereadDigits.simps [simp del]
declare natToString.simps [simp del]
declare droppedBits.simps [simp del]
declare extractLoop.simps [simp del]
declare parseLoop.simps [simp del]

subsection \<open>Bytes and fields\<close>

lemma length_leBytes [simp]: "length (leBytes n v) = n"
  by (simp add: leBytes_def)

lemma nth_leBytes [simp]: "k < n \<Longrightarrow> leBytes n v ! k = word_of_int (v div 256 ^ k)"
  by (simp add: leBytes_def)

lemma writeIntLE_Inr:
  "writeIntLE v n = Inr bs \<longleftrightarrow> - (2 ^ (8 * n - 1)) \<le> v \<and> v < 2 ^ (8 * n - 1) \<and> bs = leBytes n v"
  by (auto simp: writeIntLE_def)

lemma encodeValue_short:
  "encodeValue v ''short'' False = writeUIntLE v 2"
  "encodeValue v ''short'' True = writeIntLE v 2"
  "encodeValue v ''byte'' False = writeUIntLE v 1"
  by (simp_all add: encodeValue_def)

lemma bindE_Inr: "bindE m f = Inr y \<longleftrightarrow> (\<exists>x. m = Inr x \<and> f x = Inr y)"
  by (cases m) (simp_all add: bindE_def)

lemma bindE_simps [simp]: "bindE (Inr x) f = f x" "bindE (Inl e) f = Inl e"
  by (simp_all add: bindE_def)

lemma u16_split: "0 \<le> v \<Longrightarrow> v < 65536 \<Longrightarrow> v mod 256 + v div 256 mod 256 * 256 = (v::int)"
proof -
  assume a: "0 \<le> v" "v < 65536"
  then have "v div 256 < 256" "0 \<le> v div 256" by simp_all
  then have "v div 256 mod 256 = v div 256" by simp
  then show ?thesis by simp
qed

lemma u16le_leBytes:
  "0 \<le> v \<Longrightarrow> v < 65536 \<Longrightarrow> u16le (pre @ leBytes 2 v @ post) (length pre) = v"
  by (simp add: u16le_def nth_append uint_word_of_int u16_split)


lemma writeUIntLE_const:
  "writeUIntLE 0 2 = Inr (leBytes 2 0)" "writeUIntLE 0 1 = Inr (leBytes 1 0)"
  "writeUIntLE 0xff 1 = Inr (leBytes 1 0xff)" "writeUIntLE 0x03ff 2 = Inr (leBytes 2 0x03ff)"
  "writeUIntLE 4 2 = Inr (leBytes 2 4)" "writeUInt16BE 0x5400 = Inr (rev (leBytes 2 0x5400))"
  by (simp_all add: writeUIntLE_def writeUInt16BE_def)

lemma writeUIntLE_2: "writeUIntLE v 2 = (if 0 \<le> v \<and> v < 65536 then Inr (leBytes 2 v) else Inl RangeError)"
  by (simp add: writeUIntLE_def)

lemma frame4E_eq:
  "frame4E rd =
     (if int (wordSize + length rd) < 65536
      then Inr ((rev (leBytes 2 0x5400) @ leBytes 2 0 @ leBytes 2 0 @ leBytes 1 0 @ leBytes 1 0xff
              @ leBytes 2 0x03ff @ leBytes 1 0) @ leBytes 2 (int (wordSize + length rd))
              @ (leBytes 2 4 @ rd))
      else Inl RangeError)"
  unfolding frame4E_def encodeValue_short writeUIntLE_const bindE_simps
  by (simp add: writeUIntLE_2)

lemma frame4E_shape:
  assumes "frame4E rd = Inr f"
  shows "length f = fixedHeaderLength + wordSize + length rd"
    and "readUInt16LE f 11 = Inr (int (wordSize + length rd))"
    and "drop (fixedHeaderLength + wordSize) f = rd"
proof -
  from assms have a1: "int (wordSize + length rd) < 65536"
    and a2: "f = (rev (leBytes 2 0x5400) @ leBytes 2 0 @ leBytes 2 0 @ leBytes 1 0 @ leBytes 1 0xff
              @ leBytes 2 0x03ff @ leBytes 1 0) @ leBytes 2 (int (wordSize + length rd))
              @ (leBytes 2 4 @ rd)"
    by (simp_all add: frame4E_eq split: if_splits)
  show "length f = fixedHeaderLength + wordSize + length rd"
    by (simp add: a2 fixedHeaderLength_def wordSize_def)
  have "u16le f (length (rev (leBytes 2 0x5400) @ leBytes 2 0 @ leBytes 2 0 @ leBytes 1 0 @ leBytes 1 0xff
              @ leBytes 2 0x03ff @ leBytes 1 0)) = int (wordSize + length rd)"
    unfolding a2 using a1 by (intro u16le_leBytes) simp_all
  then show "readUInt16LE f 11 = Inr (int (wordSize + length rd))"
    by (simp add: readUInt16LE_def a2)
  show "drop (fixedHeaderLength + wordSize) f = rd"
    by (simp add: a2 fixedHeaderLength_def wordSize_def)
qed

lemma appendValues_length:
  "appendValues rd vs = Inr body \<Longrightarrow> length body = length rd + 2 * length vs"
proof (induction vs arbitrary: rd)
  case Nil
  then show ?case by simp
next
  case (Cons v vs)
  then show ?case
    by (auto simp: bindE_Inr encodeValue_short writeIntLE_Inr)
qed

lemma appendValues_total:
  "\<forall>v\<in>set vs. - 32768 \<le> v \<and> v < 32768 \<Longrightarrow> \<exists>body. appendValues rd vs = Inr body"
  by (induction vs arbitrary: rd) (simp_all add: encodeValue_short writeIntLE_def)

lemma DEVICE_CODES_keys:
  "DEVICE_CODES t = Some c \<Longrightarrow> matchNonDigits t = Some t \<and> 0 \<le> c \<and> c < 256"
  by (simp add: DEVICE_CODES_def matchNonDigits_def isDigit_def split: if_splits)

subsection \<open>Digits and device numbers\<close>


lemma digitValue_digit: "d < (10::nat) \<Longrightarrow> digitValue (char_of (48 + d)) = Some d"
  by (simp add: digitValue_def Let_def)

lemma radixDigit_digit: "d < (10::nat) \<Longrightarrow> 10 \<le> radix \<Longrightarrow> radixDigit radix (char_of (48 + d))"
  by (simp add: radixDigit_def digitValue_digit)

lemma natToString_digits: "10 \<le> radix \<Longrightarrow> \<forall>c\<in>set (natToString n). radixDigit radix c"
proof (induction n rule: natToString.induct)
  case (1 n)
  show ?case
  proof (cases "n < 10")
    case True
    then show ?thesis using 1(2) by (subst natToString.simps) (simp add: radixDigit_digit)
  next
    case False
    then show ?thesis using 1 by (subst natToString.simps) (simp add: radixDigit_digit)
  qed
qed

lemma natToString_nonempty: "natToString n \<noteq> []"
  by (subst natToString.simps) simp

lemma digitsValue_snoc:
  "digitsValue radix (ds @ [c]) = digitsValue radix ds * radix + the (digitValue c)"
  by (simp add: digitsValue_def)

lemma digitsValue_natToString: "digitsValue radix (natToString n) = rereadDigits radix n"
proof (induction n rule: natToString.induct)
  case (1 n)
  show ?case
  proof (cases "n < 10")
    case True
    then show ?thesis
      by (subst natToString.simps, subst rereadDigits.simps)
         (simp add: digitsValue_def digitValue_digit)
  next
    case False
    then show ?thesis using 1
      by (subst natToString.simps, subst rereadDigits.simps)
         (simp add: digitsValue_snoc digitValue_digit)
  qed
qed

lemma toDouble_exact: "n < 2 ^ 53 \<Longrightarrow> toDouble n = n"
  by (simp add: toDouble_def droppedBits.simps [of n])

lemma toDouble_rounds: "toDouble 9007199254740993 = 9007199254740992"
  by code_simp

lemma toDouble_exact_nat: "n < 2 ^ 53 \<Longrightarrow> toDouble (int n) = int n"
  by (rule toDouble_exact) simp

lemma parseDigits_natToString:
  "10 \<le> radix \<Longrightarrow>
   parseDigits (natToString n) radix = Some (toDouble (int (rereadDigits radix n)))"
  using natToString_digits [of radix n]
  by (simp add: parseDigits_def Let_def takeWhile_eq_all_conv [THEN iffD2]
      natToString_nonempty digitsValue_natToString)

lemma natToString_hd: "\<exists>c cs. natToString n = c # cs \<and> c \<noteq> CHR ''-'' \<and> c \<noteq> CHR ''+''"
proof -
  obtain c cs where e: "natToString n = c # cs"
    using natToString_nonempty [of n] by (cases "natToString n") auto
  from natToString_digits [of 10 n] e have "radixDigit 10 c" by simp
  then have "c \<noteq> CHR ''-'' \<and> c \<noteq> CHR ''+''"
    by (auto simp: radixDigit_def digitValue_def)
  with e show ?thesis by blast
qed

lemma parseInt_numberToString:
  assumes "0 \<le> a" "10 \<le> radix" "rereadDigits radix (nat a) < 2 ^ 53"
  shows "parseInt (numberToString a) radix = Some (int (rereadDigits radix (nat a)))"
proof -
  obtain c cs where e: "natToString (nat a) = c # cs" "c \<noteq> CHR ''-''" "c \<noteq> CHR ''+''"
    using natToString_hd by blast
  have "parseInt (natToString (nat a)) radix = parseDigits (natToString (nat a)) radix"
    unfolding parseInt_def e(1) using e(2,3) by simp
  then show ?thesis using assms
    by (simp add: numberToString_def parseDigits_natToString toDouble_exact_nat)
qed

lemma rereadDigits_10: "rereadDigits 10 n = n"
proof (induction n rule: natToString.induct)
  case (1 n)
  then show ?case by (subst rereadDigits.simps) simp
qed

lemma rereadDigits_ge: "10 \<le> radix \<Longrightarrow> n \<le> rereadDigits radix n"
proof (induction n rule: natToString.induct)
  case (1 n)
  show ?case
  proof (cases "n < 10")
    case True
    then show ?thesis by (subst rereadDigits.simps) simp
  next
    case False
    with 1 have "n div 10 \<le> rereadDigits radix (n div 10)" by simp
    then have "n div 10 * 10 \<le> rereadDigits radix (n div 10) * radix"
      using 1(2) by (intro mult_le_mono) simp_all
    moreover have "n = n div 10 * 10 + n mod 10" by simp
    ultimately have "n \<le> rereadDigits radix (n div 10) * radix + n mod 10" by linarith
    then show ?thesis using False by (subst rereadDigits.simps) simp
  qed
qed

lemma rereadDigits_16_gt: "10 \<le> n \<Longrightarrow> n < rereadDigits 16 n"
proof -
  assume a: "10 \<le> n"
  have "n div 10 \<le> rereadDigits 16 (n div 10)" by (simp add: rereadDigits_ge)
  moreover have "0 < n div 10" using a by simp
  ultimately have "n div 10 * 10 < rereadDigits 16 (n div 10) * 16" by linarith
  moreover have "n = n div 10 * 10 + n mod 10" by simp
  ultimately have "n < rereadDigits 16 (n div 10) * 16 + n mod 10" by linarith
  then show ?thesis using a by (subst rereadDigits.simps) simp
qed

lemma leBytes_Suc: "leBytes (Suc n) v = word_of_int v # leBytes n (v div 256)"
proof -
  have "[0..<Suc n] = 0 # map Suc [0..<n]"
    by (simp add: upt_conv_Cons map_Suc_upt del: upt_Suc)
  then show ?thesis
    by (simp add: leBytes_def comp_def zdiv_zmult2_eq)
qed

lemma leValue_leBytes: "0 \<le> v \<Longrightarrow> v < 2 ^ (8 * n) \<Longrightarrow> leValue (leBytes n v) = v"
proof (induction n arbitrary: v)
  case 0
  then show ?case by (simp add: leBytes_def)
next
  case (Suc n)
  have p: "(2::int) ^ (8 * Suc n) = 256 * 2 ^ (8 * n)"
    by (simp add: power_add)
  from Suc.prems have "v < 256 * 2 ^ (8 * n)" by (simp only: p)
  then have "v div 256 < 2 ^ (8 * n)" by linarith
  moreover have "0 \<le> v div 256" using Suc.prems by simp
  ultimately have "leValue (leBytes n (v div 256)) = v div 256" by (rule Suc.IH [rotated])
  then show ?case
    by (simp add: leBytes_Suc uint_word_of_int)
qed

lemma makeDeviceData_known:
  assumes "DEVICE_CODES t = Some code" "0 \<le> a"
    and "int (rereadDigits (getDeviceBase t) (nat a)) < (if plcType opts = iQ_R then 2 ^ 32 else 2 ^ 24)"
  shows "makeDeviceData opts t a =
           Inr (leBytes (if plcType opts = iQ_R then 4 else 3) (int (rereadDigits (getDeviceBase t) (nat a)))
                @ leBytes (if plcType opts = iQ_R then 2 else 1) code)"
proof -
  have b: "10 \<le> getDeviceBase t" by (simp add: getDeviceBase_def)
  have "int (rereadDigits (getDeviceBase t) (nat a)) < 2 ^ 32"
    using assms(3) by (simp split: if_splits)
  then have "int (rereadDigits (getDeviceBase t) (nat a)) < 2 ^ 53" by simp
  then have d: "rereadDigits (getDeviceBase t) (nat a) < 2 ^ 53"
    by (metis of_nat_less_numeral_power_cancel_iff)
  note k = DEVICE_CODES_keys [OF assms(1)]
  show ?thesis
    using assms k
    by (auto simp: makeDeviceData_def parseInt_numberToString [OF assms(2) b d] writeUIntLE_def
        split: if_splits)
qed

subsection \<open>Frame builder\<close>

text \<open>
  Frames are built for the inputs within range: a recognized device type, a device number
  that fits the width of the series, a count (or a number of values) that fits 16 bits,
  values that fit signed 16 bits, and a body whose length fits the length field.
\<close>

lemma readRequestData_builds:
  assumes "DEVICE_CODES t = Some code" and "0 \<le> a"
    and "int (rereadDigits (getDeviceBase t) (nat a)) < (if plcType opts = iQ_R then 2 ^ 32 else 2 ^ 24)"
    and "0 \<le> cnt" and "cnt < 65536"
  shows "\<exists>body. readRequestData opts t a cnt = Inr body \<and>
           length body = (if plcType opts = iQ_R then 12 else 10)"
  unfolding readRequestData_def encodeValue_short makeDeviceData_known [OF assms(1-3)]
  using assms(4,5) by (simp add: writeUIntLE_def subcommand_def)

lemma create4EReadFrame_builds:
  assumes "DEVICE_CODES t = Some code" and "0 \<le> a"
    and "int (rereadDigits (getDeviceBase t) (nat a)) < (if plcType opts = iQ_R then 2 ^ 32 else 2 ^ 24)"
    and "0 \<le> cnt" and "cnt < 65536"
  shows "\<exists>frame. create4EReadFrame opts t a cnt = Inr frame"
proof -
  from readRequestData_builds [OF assms]
  obtain body where b: "readRequestData opts t a cnt = Inr body"
      "length body = (if plcType opts = iQ_R then 12 else 10)"
    by blast
  from b(2) have "int (wordSize + length body) < 65536" by (simp add: wordSize_def)
  then show ?thesis by (simp add: create4EReadFrame_def b(1) frame4E_eq)
qed

lemma writeRequestData_builds:
  assumes "DEVICE_CODES t = Some code" and "0 \<le> a"
    and "int (rereadDigits (getDeviceBase t) (nat a)) < (if plcType opts = iQ_R then 2 ^ 32 else 2 ^ 24)"
    and "\<forall>v\<in>set vals. - 32768 \<le> v \<and> v < 32768" and "length vals \<le> 32760"
  shows "\<exists>body. writeRequestData opts t a vals = Inr body \<and>
           length body = (if plcType opts = iQ_R then 12 else 10) + 2 * length vals"
proof -
  let ?pre = "leBytes 2 0x1401 @ leBytes 2 (subcommand opts)
              @ (leBytes (if plcType opts = iQ_R then 4 else 3) (int (rereadDigits (getDeviceBase t) (nat a)))
                 @ leBytes (if plcType opts = iQ_R then 2 else 1) code)
              @ leBytes 2 (int (length vals))"
  have w: "writeRequestData opts t a vals = appendValues ?pre vals"
    unfolding writeRequestData_def encodeValue_short makeDeviceData_known [OF assms(1-3)]
    using assms(5) by (simp add: writeUIntLE_def subcommand_def)
  from appendValues_total [OF assms(4)]
  obtain body where b: "appendValues ?pre vals = Inr body" by blast
  from appendValues_length [OF b]
  have "length body = (if plcType opts = iQ_R then 12 else 10) + 2 * length vals" by simp
  with w b show ?thesis by simp
qed

lemma create4EWriteFrame_builds:
  assumes "DEVICE_CODES t = Some code" and "0 \<le> a"
    and "int (rereadDigits (getDeviceBase t) (nat a)) < (if plcType opts = iQ_R then 2 ^ 32 else 2 ^ 24)"
    and "\<forall>v\<in>set vals. - 32768 \<le> v \<and> v < 32768" and "length vals \<le> 32760"
  shows "\<exists>frame. create4EWriteFrame opts t a vals = Inr frame"
proof -
  from writeRequestData_builds [OF assms]
  obtain body where b: "writeRequestData opts t a vals = Inr body"
      "length body = (if plcType opts = iQ_R then 12 else 10) + 2 * length vals"
    by blast
  from b(2) assms(5) have "int (wordSize + length body) < 65536" by (simp add: wordSize_def)
  then show ?thesis by (simp add: create4EWriteFrame_def b(1) frame4E_eq)
qed

lemma read_frame_shape:
  assumes "create4EReadFrame opts dev addr cnt = Inr frame"
  shows "\<exists>body. readRequestData opts dev addr cnt = Inr body \<and>
           length frame = fixedHeaderLength + wordSize + length body \<and>
           readUInt16LE frame 11 = Inr (int (wordSize + length body)) \<and>
           drop (fixedHeaderLength + wordSize) frame = body"
proof -
  from assms obtain body where b: "readRequestData opts dev addr cnt = Inr body"
    and f: "frame4E body = Inr frame"
    by (auto simp: create4EReadFrame_def bindE_Inr)
  from b frame4E_shape [OF f] show ?thesis by blast
qed

lemma write_frame_shape:
  assumes "create4EWriteFrame opts dev addr vals = Inr frame"
  shows "\<exists>body. writeRequestData opts dev addr vals = Inr body \<and>
           length frame = fixedHeaderLength + wordSize + length body \<and>
           readUInt16LE frame 11 = Inr (int (wordSize + length body)) \<and>
           drop (fixedHeaderLength + wordSize) frame = body"
proof -
  from assms obtain body where b: "writeRequestData opts dev addr vals = Inr body"
    and f: "frame4E body = Inr frame"
    by (auto simp: create4EWriteFrame_def bindE_Inr)
  from b frame4E_shape [OF f] show ?thesis by blast
qed

text \<open>
  Claim C1. For a recognized device type and a non-negative offset whose device number
  fits the width of the series, \<open>create4EReadFrame\<close> builds a frame for every count that
  fits the 16-bit count field, and \<open>create4EWriteFrame\<close> builds one for every list of at
  most 32760 values of signed 16 bits. The frame is the 13 bytes of fixed header, the 2
  bytes of the timer and the body: its length is \<open>fixedHeaderLength + wordSize + length body\<close>,
  the length field at offset 11 reads \<open>wordSize + length body\<close>, whatever the length of
  the body is, and the bytes from offset 15 on are the body. Moreover every frame that
  either builder returns, for any input at all, has this shape. (An input that a \<open>Buffer\<close>
  writer rejects as out of range builds no frame.)
\<close>

theorem frame_length:
  assumes "DEVICE_CODES t = Some code" and "0 \<le> a"
    and "int (rereadDigits (getDeviceBase t) (nat a)) < (if plcType opts = iQ_R then 2 ^ 32 else 2 ^ 24)"
  shows "(0 \<le> cnt \<and> cnt < 65536 \<longrightarrow>
            (\<exists>frame body. create4EReadFrame opts t a cnt = Inr frame \<and>
               readRequestData opts t a cnt = Inr body \<and>
               length body = (if plcType opts = iQ_R then 12 else 10) \<and>
               length frame = fixedHeaderLength + wordSize + length body \<and>
               readUInt16LE frame 11 = Inr (int (wordSize + length body)) \<and>
               drop (fixedHeaderLength + wordSize) frame = body)) \<and>
         ((\<forall>v\<in>set vals. - 32768 \<le> v \<and> v < 32768) \<and> length vals \<le> 32760 \<longrightarrow>
            (\<exists>frame body. create4EWriteFrame opts t a vals = Inr frame \<and>
               writeRequestData opts t a vals = Inr body \<and>
               length body = (if plcType opts = iQ_R then 12 else 10) + 2 * length vals \<and>
               length frame = fixedHeaderLength + wordSize + length body \<and>
               readUInt16LE frame 11 = Inr (int (wordSize + length body)) \<and>
               drop (fixedHeaderLength + wordSize) frame = body)) \<and>
         (create4EReadFrame opts dev addr n = Inr fr \<longrightarrow>
            (\<exists>body. readRequestData opts dev addr n = Inr body \<and>
               length fr = fixedHeaderLength + wordSize + length body \<and>
               readUInt16LE fr 11 = Inr (int (wordSize + length body)) \<and>
               drop (fixedHeaderLength + wordSize) fr = body)) \<and>
         (create4EWriteFrame opts dev addr vs = Inr fw \<longrightarrow>
            (\<exists>body. writeRequestData opts dev addr vs = Inr body \<and>
               length fw = fixedHeaderLength + wordSize + length body \<and>
               readUInt16LE fw 11 = Inr (int (wordSize + length body)) \<and>
               drop (fixedHeaderLength + wordSize) fw = body))"
proof (intro conjI impI)
  assume "0 \<le> cnt \<and> cnt < 65536"
  then have c: "0 \<le> cnt" "cnt < 65536" by simp_all
  from readRequestData_builds [OF assms c]
  obtain body where b: "readRequestData opts t a cnt = Inr body"
      "length body = (if plcType opts = iQ_R then 12 else 10)"
    by blast
  from create4EReadFrame_builds [OF assms c]
  obtain frame where f: "create4EReadFrame opts t a cnt = Inr frame" by blast
  from read_frame_shape [OF f] b
  have "length frame = fixedHeaderLength + wordSize + length body \<and>
        readUInt16LE frame 11 = Inr (int (wordSize + length body)) \<and>
        drop (fixedHeaderLength + wordSize) frame = body"
    by auto
  with f b show "\<exists>frame body. create4EReadFrame opts t a cnt = Inr frame \<and>
               readRequestData opts t a cnt = Inr body \<and>
               length body = (if plcType opts = iQ_R then 12 else 10) \<and>
               length frame = fixedHeaderLength + wordSize + length body \<and>
               readUInt16LE frame 11 = Inr (int (wordSize + length body)) \<and>
               drop (fixedHeaderLength + wordSize) frame = body"
    by (intro exI [of _ frame] exI [of _ body] conjI) simp_all
next
  assume "(\<forall>v\<in>set vals. - 32768 \<le> v \<and> v < 32768) \<and> length vals \<le> 32760"
  then have c: "\<forall>v\<in>set vals. - 32768 \<le> v \<and> v < 32768" "length vals \<le> 32760" by simp_all
  from writeRequestData_builds [OF assms c]
  obtain body where b: "writeRequestData opts t a vals = Inr body"
      "length body = (if plcType opts = iQ_R then 12 else 10) + 2 * length vals"
    by blast
  from create4EWriteFrame_builds [OF assms c]
  obtain frame where f: "create4EWriteFrame opts t a vals = Inr frame" by blast
  from write_frame_shape [OF f] b
  have "length frame = fixedHeaderLength + wordSize + length body \<and>
        readUInt16LE frame 11 = Inr (int (wordSize + length body)) \<and>
        drop (fixedHeaderLength + wordSize) frame = body"
    by auto
  with f b show "\<exists>frame body. create4EWriteFrame opts t a vals = Inr frame \<and>
               writeRequestData opts t a vals = Inr body \<and>
               length body = (if plcType opts = iQ_R then 12 else 10) + 2 * length vals \<and>
               length frame = fixedHeaderLength + wordSize + length body \<and>
               readUInt16LE frame 11 = Inr (int (wordSize + length body)) \<and>
               drop (fixedHeaderLength + wordSize) frame = body"
    by (intro exI [of _ frame] exI [of _ body] conjI) simp_all
next
  assume "create4EReadFrame opts dev addr n = Inr fr"
  then show "\<exists>body. readRequestData opts dev addr n = Inr body \<and>
               length fr = fixedHeaderLength + wordSize + length body \<and>
               readUInt16LE fr 11 = Inr (int (wordSize + length body)) \<and>
               drop (fixedHeaderLength + wordSize) fr = body"
    by (rule read_frame_shape)
next
  assume "create4EWriteFrame opts dev addr vs = Inr fw"
  then show "\<exists>body. writeRequestData opts dev addr vs = Inr body \<and>
               length fw = fixedHeaderLength + wordSize + length body \<and>
               readUInt16LE fw 11 = Inr (int (wordSize + length body)) \<and>
               drop (fixedHeaderLength + wordSize) fw = body"
    by (rule write_frame_shape)
qed

theorem frame_length_witness:
  "create4EReadFrame \<lparr>plcType = Q, timeout = 5000\<rparr> ''D'' 100 1
     = Inr [84, 0, 0, 0, 0, 0, 0, 255, 255, 3, 0, 12, 0, 4, 0, 1, 4, 0, 0, 100, 0, 0, 168, 1, 0] \<and>
   length [84, 0, 0, 0, 0, 0, 0, 255, 255, 3, 0, 12, 0, 4, 0, 1, 4, 0, 0, 100, 0, 0, 168, 1, 0 :: byte]
     = fixedHeaderLength + wordSize + 10 \<and>
   readUInt16LE [84, 0, 0, 0, 0, 0, 0, 255, 255, 3, 0, 12, 0, 4, 0, 1, 4, 0, 0, 100, 0, 0, 168, 1, 0] 11
     = Inr (int (wordSize + 10)) \<and>
   create4EWriteFrame \<lparr>plcType = iQ_R, timeout = 5000\<rparr> ''D'' 200 [- 1, 7]
     = Inr [84, 0, 0, 0, 0, 0, 0, 255, 255, 3, 0, 18, 0, 4, 0, 1, 20, 2, 0, 200, 0, 0, 0, 168, 0,
            2, 0, 255, 255, 7, 0] \<and>
   length [84, 0, 0, 0, 0, 0, 0, 255, 255, 3, 0, 18, 0, 4, 0, 1, 20, 2, 0, 200, 0, 0, 0, 168, 0,
            2, 0, 255, 255, 7, 0 :: byte]
     = fixedHeaderLength + wordSize + (12 + 2 * 2) \<and>
   readUInt16LE [84, 0, 0, 0, 0, 0, 0, 255, 255, 3, 0, 18, 0, 4, 0, 1, 20, 2, 0, 200, 0, 0, 0, 168, 0,
            2, 0, 255, 255, 7, 0] 11
     = Inr (int (wordSize + (12 + 2 * 2)))"
proof -
  let ?q = "\<lparr>plcType = Q, timeout = 5000\<rparr>" and ?r = "\<lparr>plcType = iQ_R, timeout = 5000\<rparr>"
  let ?F = "[84, 0, 0, 0, 0, 0, 0, 255, 255, 3, 0, 12, 0, 4, 0, 1, 4, 0, 0, 100, 0, 0, 168, 1, 0]
            :: byte list"
  let ?G = "[84, 0, 0, 0, 0, 0, 0, 255, 255, 3, 0, 18, 0, 4, 0, 1, 20, 2, 0, 200, 0, 0, 0, 168, 0,
            2, 0, 255, 255, 7, 0] :: byte list"
  have r: "create4EReadFrame ?q ''D'' 100 1 = Inr ?F" by code_simp
  have w: "create4EWriteFrame ?r ''D'' 200 [- 1, 7] = Inr ?G" by code_simp
  have c: "DEVICE_CODES ''D'' = Some 0xa8" by (simp add: DEVICE_CODES_def)
  have b: "getDeviceBase ''D'' = 10" by (simp add: getDeviceBase_def)
  have d: "rereadDigits 10 100 = 100" "rereadDigits 10 200 = 200" by code_simp+
  have 1: "int (rereadDigits (getDeviceBase ''D'') (nat 100))
           < (if plcType ?q = iQ_R then 2 ^ 32 else 2 ^ 24)"
    by (simp add: b d)
  have 2: "int (rereadDigits (getDeviceBase ''D'') (nat 200))
           < (if plcType ?r = iQ_R then 2 ^ 32 else 2 ^ 24)"
    by (simp add: b d)
  have v: "(\<forall>v\<in>set [- 1, 7 :: int]. - 32768 \<le> v \<and> v < 32768) \<and> length [- 1, 7 :: int] \<le> 32760"
    by simp
  have n: "0 \<le> (1 :: int) \<and> (1 :: int) < 65536" by simp
  have z: "(0 :: int) \<le> 100" "(0 :: int) \<le> 200" by simp_all
  from frame_length [OF c z(1) 1, where cnt = 1, THEN conjunct1, THEN mp, OF n]
  obtain frame body where f: "create4EReadFrame ?q ''D'' 100 1 = Inr frame"
      "readRequestData ?q ''D'' 100 1 = Inr body"
      "length body = (if plcType ?q = iQ_R then 12 else 10)"
      "length frame = fixedHeaderLength + wordSize + length body"
      "readUInt16LE frame 11 = Inr (int (wordSize + length body))"
      "drop (fixedHeaderLength + wordSize) frame = body"
    by (elim exE conjE)
  from f(1) r have "frame = ?F" by simp
  with f(3-5) have A: "length ?F = fixedHeaderLength + wordSize + 10"
      "readUInt16LE ?F 11 = Inr (int (wordSize + 10))"
    by simp_all
  from frame_length [OF c z(2) 2, where vals = "[- 1, 7]", THEN conjunct2, THEN conjunct1, THEN mp, OF v]
  obtain frame2 body2 where g: "create4EWriteFrame ?r ''D'' 200 [- 1, 7] = Inr frame2"
      "writeRequestData ?r ''D'' 200 [- 1, 7] = Inr body2"
      "length body2 = (if plcType ?r = iQ_R then 12 else 10) + 2 * length [- 1, 7 :: int]"
      "length frame2 = fixedHeaderLength + wordSize + length body2"
      "readUInt16LE frame2 11 = Inr (int (wordSize + length body2))"
      "drop (fixedHeaderLength + wordSize) frame2 = body2"
    by (elim exE conjE)
  from g(1) w have "frame2 = ?G" by simp
  with g(3-5) have B: "length ?G = fixedHeaderLength + wordSize + (12 + 2 * 2)"
      "readUInt16LE ?G 11 = Inr (int (wordSize + (12 + 2 * 2)))"
    by simp_all
  from r w A B show ?thesis by (intro conjI)
qed

subsection \<open>Device address codec\<close>

text \<open>
  Claim C3, as it is stated, fails: for a hexadecimal device type the device-number bytes
  do not encode the numeric offset passed in. The offset 10 of the device \<open>X\<close> is written as
  the bytes \<open>10 00 00\<close> (hexadecimal), the number 16, while the same offset of the decimal
  device \<open>D\<close> is written as \<open>0A 00 00\<close>.
\<close>

theorem device_number_counterexample:
  "makeDeviceData \<lparr>plcType = Q, timeout = 5000\<rparr> ''X'' 10 = Inr [0x10, 0x00, 0x00, 0x9c] \<and>
   leValue [0x10, 0x00, 0x00] = 16 \<and>
   makeDeviceData \<lparr>plcType = Q, timeout = 5000\<rparr> ''D'' 10 = Inr [0x0a, 0x00, 0x00, 0xa8] \<and>
   DEVICE_CODES ''X'' = Some 0x9c \<and> getDeviceBase ''X'' = 16"
  by code_simp

text \<open>
  Claim C3, amended. For a recognized device type and a non-negative offset whose device
  number fits the width of the series (3 bytes, or 4 for iQ-R), the device-number bytes
  are the little-endian encoding of \<open>parseInt(offset.toString(), base)\<close>: the decimal
  digits of the offset, read in the base of the device type. For a decimal device type
  this is the offset itself; for a hexadecimal one it is larger than the offset as soon
  as the offset has two digits.
\<close>

theorem device_number_encoding:
  assumes "DEVICE_CODES t = Some code" and "0 \<le> a"
    and "int (rereadDigits (getDeviceBase t) (nat a)) < (if plcType opts = iQ_R then 2 ^ 32 else 2 ^ 24)"
  shows "\<exists>bytes. makeDeviceData opts t a = Inr bytes \<and>
           leValue (take (if plcType opts = iQ_R then 4 else 3) bytes)
             = int (rereadDigits (getDeviceBase t) (nat a)) \<and>
           (getDeviceBase t = 10 \<longrightarrow>
              leValue (take (if plcType opts = iQ_R then 4 else 3) bytes) = a) \<and>
           (getDeviceBase t = 16 \<longrightarrow> 10 \<le> a \<longrightarrow>
              a < leValue (take (if plcType opts = iQ_R then 4 else 3) bytes))"
proof -
  let ?n = "if plcType opts = iQ_R then 4 else 3 :: nat"
  let ?v = "int (rereadDigits (getDeviceBase t) (nat a))"
  let ?bytes = "leBytes ?n ?v @ leBytes (if plcType opts = iQ_R then 2 else 1) code"
  have m: "makeDeviceData opts t a = Inr ?bytes"
    by (rule makeDeviceData_known [OF assms])
  have "?v < 2 ^ (8 * ?n)" using assms(3) by (simp split: if_splits)
  then have "leValue (leBytes ?n ?v) = ?v" by (intro leValue_leBytes) simp_all
  then have l: "leValue (take ?n ?bytes) = ?v" by simp
  have d: "getDeviceBase t = 10 \<Longrightarrow> ?v = a"
    using assms(2) by (simp add: rereadDigits_10)
  have h: "a < ?v" if b: "getDeviceBase t = 16" and "10 \<le> a"
  proof -
    from that have "10 \<le> nat a" by simp
    then have "nat a < rereadDigits 16 (nat a)" by (rule rereadDigits_16_gt)
    then have "int (nat a) < int (rereadDigits 16 (nat a))" by (simp only: of_nat_less_iff)
    moreover have "int (nat a) = a" using assms(2) by simp
    ultimately show ?thesis by (simp only: b)
  qed
  show ?thesis
  proof (rule exI [of _ ?bytes], intro conjI impI)
    show "makeDeviceData opts t a = Inr ?bytes" by (rule m)
    show "leValue (take ?n ?bytes) = ?v" by (rule l)
  next
    assume "getDeviceBase t = 10"
    from d [OF this] l show "leValue (take ?n ?bytes) = a" by (simp only:)
  next
    assume "getDeviceBase t = 16" and "10 \<le> a"
    from h [OF this] l show "a < leValue (take ?n ?bytes)" by (simp only:)
  qed
qed

theorem device_number_encoding_witness:
  "(\<exists>bytes. makeDeviceData \<lparr>plcType = Q, timeout = 5000\<rparr> ''D'' 100 = Inr bytes \<and>
        leValue (take 3 bytes) = 100) \<and>
   (\<exists>bytes. makeDeviceData \<lparr>plcType = iQ_R, timeout = 5000\<rparr> ''X'' 10 = Inr bytes \<and>
        10 < leValue (take 4 bytes))"
proof -
  have c: "DEVICE_CODES ''D'' = Some 0xa8" "DEVICE_CODES ''X'' = Some 0x9c"
    by (simp_all add: DEVICE_CODES_def)
  have b: "getDeviceBase ''D'' = 10" "getDeviceBase ''X'' = 16"
    by (simp_all add: getDeviceBase_def)
  have r: "rereadDigits 10 100 = 100" "rereadDigits 16 10 = 16"
    by code_simp+
  have 1: "int (rereadDigits (getDeviceBase ''D'') (nat 100))
           < (if plcType \<lparr>plcType = Q, timeout = 5000\<rparr> = iQ_R then 2 ^ 32 else 2 ^ 24)"
    by (simp add: b r)
  have 2: "int (rereadDigits (getDeviceBase ''X'') (nat 10))
           < (if plcType \<lparr>plcType = iQ_R, timeout = 5000\<rparr> = iQ_R then 2 ^ 32 else 2 ^ 24)"
    by (simp add: b r)
  have "\<exists>bytes. makeDeviceData \<lparr>plcType = Q, timeout = 5000\<rparr> ''D'' 100 = Inr bytes \<and>
        leValue (take 3 bytes) = 100"
    using device_number_encoding [OF c(1) _ 1] by (auto simp: b)
  moreover have "\<exists>bytes. makeDeviceData \<lparr>plcType = iQ_R, timeout = 5000\<rparr> ''X'' 10 = Inr bytes \<and>
        10 < leValue (take 4 bytes)"
    using device_number_encoding [OF c(2) _ 2] by (auto simp: b)
  ultimately show ?thesis by blast
qed

subsection \<open>Stream reassembly\<close>


lemma processResponse_buffer [simp]:
  "responseBuffer (processResponse w r) = responseBuffer w"
  by (simp add: processResponse_def settle_def clearTimeout_def pendingDelete_def Let_def
      split: list.splits sum.splits)

lemma extractLoop_short: "length (responseBuffer w) < 13 \<Longrightarrow> extractLoop w = ([], w)"
  by (subst extractLoop.simps) simp

lemma u16le_take: "off + 2 \<le> n \<Longrightarrow> u16le (take n f) off = u16le f off"
  by (simp add: u16le_def)

lemma u16le_append: "off + 2 \<le> length f \<Longrightarrow> u16le (f @ g) off = u16le f off"
  by (simp add: u16le_def nth_append)

lemma extractLoop_prefix:
  assumes "completeFrame f" "responseBuffer w = take n f" "n < length f"
  shows "extractLoop w = ([], w)"
proof (cases "13 \<le> n")
  case False
  with assms show ?thesis by (intro extractLoop_short) simp
next
  case True
  then have "u16le (responseBuffer w) 11 = u16le f 11"
    using assms by (simp add: u16le_take)
  then have "\<not> 13 + nat (u16le (responseBuffer w) 11) \<le> length (responseBuffer w)"
    using assms by (simp add: completeFrame_def)
  then show ?thesis
    by (subst extractLoop.simps) (simp add: Let_def)
qed

lemma extractLoop_frame:
  assumes "completeFrame f" "responseBuffer w = f @ rest"
  shows "extractLoop w =
           (f # fst (extractLoop (processResponse (w\<lparr>responseBuffer := rest\<rparr>) f)),
            snd (extractLoop (processResponse (w\<lparr>responseBuffer := rest\<rparr>) f)))"
proof -
  have l: "13 \<le> length f" "13 + nat (u16le f 11) = length f"
    using assms(1) by (simp_all add: completeFrame_def)
  have "u16le (responseBuffer w) 11 = u16le f 11"
    using l assms(2) by (simp add: u16le_append)
  then show ?thesis
    using l assms(2) by (subst extractLoop.simps) (simp add: Let_def)
qed

lemma handleResponse_prefix:
  assumes "completeFrame f" "responseBuffer w @ c = take n f" "n < length f"
  shows "handleResponse w c = ([], w\<lparr>responseBuffer := responseBuffer w @ c\<rparr>)"
  unfolding handleResponse_def
  by (rule extractLoop_prefix [OF assms(1) _ assms(3)]) (simp add: assms(2))

lemma handleResponse_completes:
  assumes "completeFrame f" "responseBuffer w @ c = f"
  shows "fst (handleResponse w c) = [f]"
    and "responseBuffer (snd (handleResponse w c)) = []"
    and "snd (handleResponse w c) = processResponse (w\<lparr>responseBuffer := []\<rparr>) f"
proof -
  have "extractLoop (processResponse (w\<lparr>responseBuffer := []\<rparr>) f)
        = ([], processResponse (w\<lparr>responseBuffer := []\<rparr>) f)"
    by (rule extractLoop_short) simp
  moreover have "handleResponse w c =
       (f # fst (extractLoop (processResponse (w\<lparr>responseBuffer := []\<rparr>) f)),
            snd (extractLoop (processResponse (w\<lparr>responseBuffer := []\<rparr>) f)))"
    unfolding handleResponse_def
    using extractLoop_frame [OF assms(1), of "w\<lparr>responseBuffer := responseBuffer w @ c\<rparr>" "[]"]
    by (simp add: assms(2))
  ultimately show "fst (handleResponse w c) = [f]"
    and "responseBuffer (snd (handleResponse w c)) = []"
    and "snd (handleResponse w c) = processResponse (w\<lparr>responseBuffer := []\<rparr>) f"
    by simp_all
qed

lemma feed_empty:
  "responseBuffer w = [] \<Longrightarrow> concat chunks = [] \<Longrightarrow> feed w chunks = ([], w)"
proof (induction chunks)
  case Nil
  then show ?case by simp
next
  case (Cons c cs)
  then have "c = []" by simp
  then have "handleResponse w c = ([], w)"
    using Cons.prems(1) by (simp add: handleResponse_def extractLoop_short)
  then show ?case using Cons by (simp add: Let_def)
qed

lemma feed_prefix:
  assumes "completeFrame f" "n < length f"
  shows "responseBuffer w @ concat chunks = take n f \<Longrightarrow>
         feed w chunks = ([], w\<lparr>responseBuffer := responseBuffer w @ concat chunks\<rparr>)"
proof (induction chunks arbitrary: w)
  case Nil
  then show ?case by simp
next
  case (Cons c cs)
  let ?m = "length (responseBuffer w @ c)"
  have t: "responseBuffer w @ c = take ?m (take n f)"
    using Cons.prems by (metis append_assoc append_eq_conv_conj concat.simps(2))
  have p: "responseBuffer w @ c = take (min ?m n) f"
    using t unfolding take_take .
  have lt: "min ?m n < length f" using assms(2) by simp
  have h: "handleResponse w c = ([], w\<lparr>responseBuffer := responseBuffer w @ c\<rparr>)"
    by (rule handleResponse_prefix [OF assms(1) p lt])
  have "feed (w\<lparr>responseBuffer := responseBuffer w @ c\<rparr>) cs
        = ([], (w\<lparr>responseBuffer := responseBuffer w @ c\<rparr>)
                 \<lparr>responseBuffer := responseBuffer (w\<lparr>responseBuffer := responseBuffer w @ c\<rparr>) @ concat cs\<rparr>)"
    using Cons.prems by (intro Cons.IH) simp
  then show ?case by (simp add: h Let_def)
qed

lemma feed_complete:
  assumes "completeFrame f"
  shows "length (responseBuffer w) < length f \<Longrightarrow> responseBuffer w @ concat chunks = f \<Longrightarrow>
         fst (feed w chunks) = [f] \<and> responseBuffer (snd (feed w chunks)) = []"
proof (induction chunks arbitrary: w)
  case Nil
  then show ?case by simp
next
  case (Cons c cs)
  show ?case
  proof (cases "length (responseBuffer w @ c) < length f")
    case True
    let ?m = "length (responseBuffer w @ c)"
    have pm: "responseBuffer w @ c = take ?m f"
      using Cons.prems by (metis append_assoc append_eq_conv_conj concat.simps(2))
    have h: "handleResponse w c = ([], w\<lparr>responseBuffer := responseBuffer w @ c\<rparr>)"
      by (rule handleResponse_prefix [OF assms pm True])
    have "fst (feed (w\<lparr>responseBuffer := responseBuffer w @ c\<rparr>) cs) = [f] \<and>
          responseBuffer (snd (feed (w\<lparr>responseBuffer := responseBuffer w @ c\<rparr>) cs)) = []"
      using Cons.prems True by (intro Cons.IH) simp_all
    then show ?thesis by (simp add: h Let_def)
  next
    case False
    have "length (responseBuffer w @ c) + length (concat cs) = length f"
      using Cons.prems(2) by (metis append_assoc concat.simps(2) length_append)
    with False have "length (concat cs) = 0" by linarith
    then have e: "concat cs = []" by (simp only: length_0_conv)
    have "responseBuffer w @ c @ concat cs = f"
      using Cons.prems(2) by (simp only: concat.simps)
    then have c: "responseBuffer w @ c = f" by (simp only: e append_Nil2)
    note hc = handleResponse_completes [OF assms c]
    have "feed (snd (handleResponse w c)) cs = ([], snd (handleResponse w c))"
      using hc(2) e by (rule feed_empty)
    then show ?thesis using hc by (simp add: Let_def)
  qed
qed

lemma handleResponse_two:
  assumes "completeFrame f" "completeFrame g" "responseBuffer w = []"
  shows "fst (handleResponse w (f @ g)) = [f, g]"
    and "responseBuffer (snd (handleResponse w (f @ g))) = []"
proof -
  let ?w1 = "processResponse (w\<lparr>responseBuffer := g\<rparr>) f"
  let ?w2 = "processResponse (?w1\<lparr>responseBuffer := []\<rparr>) g"
  have 1: "handleResponse w (f @ g) = (f # fst (extractLoop ?w1), snd (extractLoop ?w1))"
    unfolding handleResponse_def
    using extractLoop_frame [OF assms(1), of "w\<lparr>responseBuffer := responseBuffer w @ f @ g\<rparr>" g]
    by (simp add: assms(3))
  have 2: "extractLoop ?w1 = (g # fst (extractLoop ?w2), snd (extractLoop ?w2))"
    by (rule extractLoop_frame [OF assms(2)]) simp
  have 3: "extractLoop ?w2 = ([], ?w2)"
    by (rule extractLoop_short) simp
  show "fst (handleResponse w (f @ g)) = [f, g]"
    and "responseBuffer (snd (handleResponse w (f @ g))) = []"
    by (simp_all add: 1 2 3)
qed

text \<open>
  Claim C2. Let \<open>f\<close> be a complete response and let the buffer be empty. Fed in any
  chunks whose concatenation is \<open>f\<close> (of any sizes, so also byte by byte),
  \<open>handleResponse\<close> cuts off exactly the one frame \<open>f\<close> and leaves the buffer empty. Fed
  \<open>f\<close> and a second complete response \<open>g\<close> in one chunk, it cuts off \<open>f\<close> and then \<open>g\<close>.
  Fed chunks that make up a strict prefix of \<open>f\<close>, it cuts off nothing and changes
  nothing but the buffer, which then holds exactly that prefix.
\<close>

theorem reassembly:
  assumes "completeFrame f" and "responseBuffer w = []"
  shows "(concat chunks = f \<longrightarrow>
            fst (feed w chunks) = [f] \<and> responseBuffer (snd (feed w chunks)) = []) \<and>
         (completeFrame g \<longrightarrow>
            fst (handleResponse w (f @ g)) = [f, g] \<and>
            responseBuffer (snd (handleResponse w (f @ g))) = []) \<and>
         (n < length f \<longrightarrow> concat parts = take n f \<longrightarrow>
            feed w parts = ([], w\<lparr>responseBuffer := take n f\<rparr>))"
proof (intro conjI impI)
  assume c: "concat chunks = f"
  have "length (responseBuffer w) < length f"
    using assms by (simp add: completeFrame_def)
  moreover have "responseBuffer w @ concat chunks = f" using assms(2) c by simp
  ultimately have "fst (feed w chunks) = [f] \<and> responseBuffer (snd (feed w chunks)) = []"
    by (rule feed_complete [OF assms(1)])
  then show "fst (feed w chunks) = [f]" and "responseBuffer (snd (feed w chunks)) = []"
    by simp_all
next
  assume g: "completeFrame g"
  show "fst (handleResponse w (f @ g)) = [f, g]"
    by (rule handleResponse_two(1) [OF assms(1) g assms(2)])
  show "responseBuffer (snd (handleResponse w (f @ g))) = []"
    by (rule handleResponse_two(2) [OF assms(1) g assms(2)])
next
  assume n: "n < length f" and p: "concat parts = take n f"
  have "responseBuffer w @ concat parts = take n f" using assms(2) p by simp
  then have "feed w parts = ([], w\<lparr>responseBuffer := responseBuffer w @ concat parts\<rparr>)"
    by (rule feed_prefix [OF assms(1) n])
  then show "feed w parts = ([], w\<lparr>responseBuffer := take n f\<rparr>)"
    using assms(2) p by simp
qed

theorem reassembly_witness:
  "fst (feed (initial \<lparr>plcType = Q, timeout = 5000\<rparr>)
          (map (\<lambda>b. [b]) [0xd4, 0, 0, 0, 0, 0, 0, 0xff, 0xff, 3, 0, 4, 0, 0, 0, 0x39, 0x30]))
     = [[0xd4, 0, 0, 0, 0, 0, 0, 0xff, 0xff, 3, 0, 4, 0, 0, 0, 0x39, 0x30]] \<and>
   fst (handleResponse (initial \<lparr>plcType = Q, timeout = 5000\<rparr>)
          ([0xd4, 0, 0, 0, 0, 0, 0, 0xff, 0xff, 3, 0, 4, 0, 0, 0, 0x39, 0x30]
           @ [0xd4, 0, 0, 0, 0, 0, 0, 0xff, 0xff, 3, 0, 2, 0, 0x31, 0x40]))
     = [[0xd4, 0, 0, 0, 0, 0, 0, 0xff, 0xff, 3, 0, 4, 0, 0, 0, 0x39, 0x30],
        [0xd4, 0, 0, 0, 0, 0, 0, 0xff, 0xff, 3, 0, 2, 0, 0x31, 0x40]] \<and>
   feed (initial \<lparr>plcType = Q, timeout = 5000\<rparr>)
          [[0xd4, 0, 0, 0, 0, 0, 0, 0xff, 0xff, 3, 0, 4, 0], [0, 0, 0x39]]
     = ([], (initial \<lparr>plcType = Q, timeout = 5000\<rparr>)
               \<lparr>responseBuffer := [0xd4, 0, 0, 0, 0, 0, 0, 0xff, 0xff, 3, 0, 4, 0, 0, 0, 0x39]\<rparr>)"
proof -
  let ?f = "[0xd4, 0, 0, 0, 0, 0, 0, 0xff, 0xff, 3, 0, 4, 0, 0, 0, 0x39, 0x30] :: byte list"
  let ?g = "[0xd4, 0, 0, 0, 0, 0, 0, 0xff, 0xff, 3, 0, 2, 0, 0x31, 0x40] :: byte list"
  let ?w = "initial \<lparr>plcType = Q, timeout = 5000\<rparr>"
  have f: "completeFrame ?f" by code_simp
  have g: "completeFrame ?g" by code_simp
  have w: "responseBuffer ?w = []" by (simp add: initial_def)
  have c: "concat (map (\<lambda>b. [b]) ?f) = ?f" by simp
  have n: "16 < length ?f" by simp
  have p: "concat [[0xd4, 0, 0, 0, 0, 0, 0, 0xff, 0xff, 3, 0, 4, 0], [0, 0, 0x39]] = take 16 ?f"
    by simp
  have t: "take 16 ?f = [0xd4, 0, 0, 0, 0, 0, 0, 0xff, 0xff, 3, 0, 4, 0, 0, 0, 0x39]"
    by simp
  note r = reassembly [OF f w, of "map (\<lambda>b. [b]) ?f" ?g 16
             "[[0xd4, 0, 0, 0, 0, 0, 0, 0xff, 0xff, 3, 0, 4, 0], [0, 0, 0x39]]"]
  from r have 1: "fst (feed ?w (map (\<lambda>b. [b]) ?f)) = [?f]" using c by blast
  from r have 2: "fst (handleResponse ?w (?f @ ?g)) = [?f, ?g]" using g by blast
  from r have 3: "feed ?w [[0xd4, 0, 0, 0, 0, 0, 0, 0xff, 0xff, 3, 0, 4, 0], [0, 0, 0x39]]
                  = ([], ?w\<lparr>responseBuffer := take 16 ?f\<rparr>)"
    using n p by blast
  from 1 2 3 show ?thesis by (simp only: t)
qed

subsection \<open>Validation and decoding\<close>

lemma upt_0_Suc: "[0..<Suc m] = 0 # map Suc [0..<m]"
  by (simp add: upt_conv_Cons map_Suc_upt del: upt_Suc)

lemma parseLoop_eq:
  "parseLoop r i vs = vs @ map (\<lambda>k. i16le r (i + 2 * k)) [0..<(length r - i) div 2]"
proof (induction r i vs rule: parseLoop.induct)
  case (1 r i vs)
  show ?case
  proof (cases "i < length r")
    case False
    then show ?thesis by (subst parseLoop.simps) simp
  next
    case True
    show ?thesis
    proof (cases "i + 1 < length r")
      case False
      with True have z: "(length r - i) div 2 = 0" "(length r - (i + 2)) div 2 = 0" by simp_all
      have "parseLoop r i vs = parseLoop r (i + 2) vs"
        using True False by (subst parseLoop.simps) simp
      also have "\<dots> = vs" using 1(2) [OF True False] by (simp only: z upt_0 list.map append_Nil2)
      finally show ?thesis by (simp only: z upt_0 list.map append_Nil2)
    next
      case t: True
      define m where "m = (length r - (i + 2)) div 2"
      have d: "(length r - i) div 2 = Suc m" using t by (simp add: m_def)
      have "parseLoop r i vs = parseLoop r (i + 2) (vs @ [i16le r i])"
        using True t by (subst parseLoop.simps) simp
      also have "\<dots> = (vs @ [i16le r i]) @ map (\<lambda>k. i16le r (i + 2 + 2 * k)) [0..<m]"
        unfolding m_def by (rule 1(1) [OF True t])
      also have "\<dots> = vs @ map (\<lambda>k. i16le r (i + 2 * k)) (0 # map Suc [0..<m])"
        by (simp add: comp_def del: upt_Suc)
      finally show ?thesis by (simp only: d upt_0_Suc)
    qed
  qed
qed

lemma validateResponse_status:
  assumes "readUInt16BE f 0 = Inr 0xd400" "readUInt16LE f 13 = Inr status"
  shows "validateResponse f = (if status \<noteq> 0 then Inl (PlcError status) else Inr ())"
proof -
  from assms(2) have l: "15 \<le> length f"
    by (simp add: readUInt16LE_def split: if_splits)
  then have "readUInt16LE f 9 = Inr (u16le f 9)" by (simp add: readUInt16LE_def)
  then show ?thesis using assms l by (simp add: validateResponse_def)
qed

lemma validateResponse_short:
  assumes "completeFrame f" "readUInt16BE f 0 = Inr 0xd400" "length f < 15"
  shows "validateResponse f = Inr ()"
proof -
  from assms(1) have "readUInt16LE f 9 = Inr (u16le f 9)"
    by (simp add: readUInt16LE_def completeFrame_def)
  then show ?thesis using assms by (simp add: validateResponse_def)
qed

lemma parseReadResponse_ok:
  assumes "validateResponse f = Inr ()"
  shows "parseReadResponse f = Inr (map (\<lambda>k. i16le f (15 + 2 * k)) [0..<(length f - 15) div 2])"
  unfolding parseReadResponse_def assms bindE_simps parseLoop_eq by simp

lemma parseReadResponse_values:
  assumes "validateResponse f = Inr ()" "(length f - 15) div 2 = N"
  shows "\<exists>vs. parseReadResponse f = Inr vs \<and> length vs = N \<and>
              (\<forall>k<N. vs ! k = i16le f (15 + 2 * k))"
proof -
  let ?vs = "map (\<lambda>k. i16le f (15 + 2 * k)) [0..<N]"
  have "parseReadResponse f = Inr ?vs"
    using parseReadResponse_ok [OF assms(1)] by (simp only: assms(2))
  moreover have "length ?vs = N" by simp
  moreover have "\<forall>k<N. ?vs ! k = i16le f (15 + 2 * k)" by simp
  ultimately show ?thesis by blast
qed

lemma parseReadResponse_fails:
  "validateResponse f = Inl e \<Longrightarrow> parseReadResponse f = Inl e"
  by (simp add: parseReadResponse_def)

text \<open>
  Claim C4. Let the response bear the subheader \<open>0xD400\<close> and hold the 2-byte status at
  offset 13 (every complete frame of at least 15 bytes does). If the status is not zero,
  \<open>validateResponse\<close> fails with \<open>PlcError\<close> of exactly that status, and so does
  \<open>parseReadResponse\<close>, which decodes no value. If the status is zero and \<open>2 * N\<close> bytes
  follow offset 15, \<open>parseReadResponse\<close> returns \<open>N\<close> values, the \<open>k\<close>-th being the signed
  little-endian 16-bit value at offset \<open>15 + 2 * k\<close>.
\<close>

theorem status_and_values:
  assumes "readUInt16BE f 0 = Inr 0xd400" and "readUInt16LE f 13 = Inr status"
  shows "(status \<noteq> 0 \<longrightarrow>
            validateResponse f = Inl (PlcError status) \<and>
            parseReadResponse f = Inl (PlcError status)) \<and>
         (status = 0 \<longrightarrow>
            (\<forall>N. length f = 15 + 2 * N \<longrightarrow>
               (\<exists>vs. parseReadResponse f = Inr vs \<and> length vs = N \<and>
                     (\<forall>k<N. vs ! k = i16le f (15 + 2 * k)))))"
proof (intro conjI impI allI)
  assume "status \<noteq> 0"
  then show v: "validateResponse f = Inl (PlcError status)"
    by (simp add: validateResponse_status [OF assms])
  then show "parseReadResponse f = Inl (PlcError status)"
    by (rule parseReadResponse_fails)
next
  fix N
  assume "status = 0" and l: "length f = 15 + 2 * N"
  then have v: "validateResponse f = Inr ()"
    by (simp add: validateResponse_status [OF assms])
  have "(length f - 15) div 2 = N" by (simp add: l)
  with v show "\<exists>vs. parseReadResponse f = Inr vs \<and> length vs = N \<and>
                     (\<forall>k<N. vs ! k = i16le f (15 + 2 * k))"
    by (rule parseReadResponse_values)
qed


theorem status_and_values_witness:
  "validateResponse [0xd4, 0, 0, 0, 0, 0, 0, 0xff, 0xff, 3, 0, 2, 0, 0x31, 0x40]
     = Inl (PlcError 0x4031) \<and>
   parseReadResponse [0xd4, 0, 0, 0, 0, 0, 0, 0xff, 0xff, 3, 0, 2, 0, 0x31, 0x40]
     = Inl (PlcError 0x4031) \<and>
   (\<exists>vs. parseReadResponse [0xd4, 0, 0, 0, 0, 0, 0, 0xff, 0xff, 3, 0, 6, 0, 0, 0, 0x39, 0x30, 0xff, 0xff]
            = Inr vs \<and> length vs = 2 \<and> vs ! 0 = 12345 \<and> vs ! 1 = - 1)"
proof -
  let ?e = "[0xd4, 0, 0, 0, 0, 0, 0, 0xff, 0xff, 3, 0, 2, 0, 0x31, 0x40] :: byte list"
  let ?f = "[0xd4, 0, 0, 0, 0, 0, 0, 0xff, 0xff, 3, 0, 6, 0, 0, 0, 0x39, 0x30, 0xff, 0xff] :: byte list"
  have e: "readUInt16BE ?e 0 = Inr 0xd400" "readUInt16LE ?e 13 = Inr 0x4031" by code_simp+
  have f: "readUInt16BE ?f 0 = Inr 0xd400" "readUInt16LE ?f 13 = Inr 0" by code_simp+
  have l: "length ?f = 15 + 2 * 2" by simp
  have v: "i16le ?f (15 + 2 * 0) = 12345" "i16le ?f (15 + 2 * 1) = - 1" by code_simp+
  from status_and_values [OF e]
  have 1: "validateResponse ?e = Inl (PlcError 0x4031) \<and> parseReadResponse ?e = Inl (PlcError 0x4031)"
    by simp
  from status_and_values [OF f] l
  obtain vs where vs: "parseReadResponse ?f = Inr vs" "length vs = 2"
      "\<forall>k<2. vs ! k = i16le ?f (15 + 2 * k)"
    by blast
  from vs(3) have "vs ! 0 = i16le ?f (15 + 2 * 0)" "vs ! 1 = i16le ?f (15 + 2 * 1)" by simp_all
  with v have "vs ! 0 = 12345" "vs ! 1 = - 1" by simp_all
  with vs(1,2) 1 show ?thesis by blast
qed

text \<open>
  Claim C5, as it is stated, fails: no path of \<open>parseReadResponse\<close> rejects a response for
  an odd number of trailing bytes. This complete response has the subheader \<open>0xD400\<close>,
  status zero and one byte after offset 15; it decodes to the empty list of values.
\<close>

theorem odd_trailing_counterexample:
  "completeFrame [0xd4, 0, 0, 0, 0, 0, 0, 0xff, 0xff, 3, 0, 3, 0, 0, 0, 0x7f] \<and>
   readUInt16BE [0xd4, 0, 0, 0, 0, 0, 0, 0xff, 0xff, 3, 0, 3, 0, 0, 0, 0x7f] 0 = Inr 0xd400 \<and>
   readUInt16LE [0xd4, 0, 0, 0, 0, 0, 0, 0xff, 0xff, 3, 0, 3, 0, 0, 0, 0x7f] 13 = Inr 0 \<and>
   odd (length [0xd4, 0, 0, 0, 0, 0, 0, 0xff, 0xff, 3, 0, 3, 0, 0, 0, 0x7f :: byte] - 15) \<and>
   parseReadResponse [0xd4, 0, 0, 0, 0, 0, 0, 0xff, 0xff, 3, 0, 3, 0, 0, 0, 0x7f] = Inr []"
  by code_simp

text \<open>
  Claim C5, amended. For a response with the subheader \<open>0xD400\<close> and status zero that has
  \<open>2 * N + 1\<close> bytes after offset 15, \<open>parseReadResponse\<close> succeeds: it returns the \<open>N\<close>
  values of the \<open>N\<close> whole pairs and leaves the last byte out.
\<close>

theorem odd_trailing_byte:
  assumes "readUInt16BE f 0 = Inr 0xd400" and "readUInt16LE f 13 = Inr 0"
    and "length f = 15 + 2 * N + 1"
  shows "\<exists>vs. parseReadResponse f = Inr vs \<and> length vs = N \<and>
              (\<forall>k<N. vs ! k = i16le f (15 + 2 * k))"
proof -
  have v: "validateResponse f = Inr ()"
    by (simp add: validateResponse_status [OF assms(1,2)])
  have "(length f - 15) div 2 = N" by (simp add: assms(3))
  with v show ?thesis by (rule parseReadResponse_values)
qed

theorem odd_trailing_byte_witness:
  "\<exists>vs. parseReadResponse [0xd4, 0, 0, 0, 0, 0, 0, 0xff, 0xff, 3, 0, 5, 0, 0, 0, 0x39, 0x30, 0x7f]
           = Inr vs \<and> length vs = 1 \<and> vs ! 0 = 12345"
proof -
  let ?f = "[0xd4, 0, 0, 0, 0, 0, 0, 0xff, 0xff, 3, 0, 5, 0, 0, 0, 0x39, 0x30, 0x7f] :: byte list"
  have f: "readUInt16BE ?f 0 = Inr 0xd400" "readUInt16LE ?f 13 = Inr 0" by code_simp+
  have l: "length ?f = 15 + 2 * 1 + 1" by simp
  have v: "i16le ?f (15 + 2 * 0) = 12345" by code_simp
  from odd_trailing_byte [OF f l]
  obtain vs where vs: "parseReadResponse ?f = Inr vs" "length vs = 1"
      "\<forall>k<1. vs ! k = i16le ?f (15 + 2 * k)"
    by blast
  from vs(3) have "vs ! 0 = i16le ?f (15 + 2 * 0)" by simp
  with v have "vs ! 0 = 12345" by simp
  with vs(1,2) show ?thesis by blast
qed

text \<open>
  Claim C9. A complete response with the subheader \<open>0xD400\<close> that is shorter than 15
  bytes passes \<open>validateResponse\<close>, whatever its bytes from offset 13 on are: the status
  is read only when the response has at least 15 bytes.
\<close>

theorem short_frame_unchecked:
  assumes "completeFrame f" and "readUInt16BE f 0 = Inr 0xd400" and "length f < 15"
  shows "validateResponse f = Inr ()"
  using assms by (rule validateResponse_short)

theorem short_frame_unchecked_witness:
  "completeFrame [0xd4, 0, 0, 0, 0, 0, 0, 0xff, 0xff, 3, 0, 1, 0, 0x31] \<and>
   [0xd4, 0, 0, 0, 0, 0, 0, 0xff, 0xff, 3, 0, 1, 0, 0x31 :: byte] ! 13 \<noteq> 0 \<and>
   validateResponse [0xd4, 0, 0, 0, 0, 0, 0, 0xff, 0xff, 3, 0, 1, 0, 0x31] = Inr ()"
proof -
  let ?f = "[0xd4, 0, 0, 0, 0, 0, 0, 0xff, 0xff, 3, 0, 1, 0, 0x31] :: byte list"
  have c: "completeFrame ?f" by code_simp
  have s: "readUInt16BE ?f 0 = Inr 0xd400" by code_simp
  have l: "length ?f < 15" by simp
  have n: "?f ! 13 \<noteq> 0" by simp
  from short_frame_unchecked [OF c s l] c n show ?thesis by blast
qed

subsection \<open>Register names\<close>

lemma takeWhile_dropWhile_split:
  assumes "reg = ls @ ds" "ds \<noteq> []" "list_all P ls" "\<not> P (hd ds)"
  shows "takeWhile P reg = ls" "dropWhile P reg = ds"
proof -
  obtain d ds' where d: "ds = d # ds'" using assms(2) by (cases ds) auto
  with assms(4) have "\<not> P d" by simp
  then show "takeWhile P reg = ls" "dropWhile P reg = ds"
    using assms(1,3) d by (simp_all add: list_all_iff takeWhile_append2 dropWhile_append2)
qed

lemma digit_not_upper: "isDigit c \<Longrightarrow> \<not> isUpper c"
  by (simp add: isDigit_def isUpper_def)

lemma matchRegister_iff:
  "matchRegister reg = Some (ls, ds) \<longleftrightarrow>
     reg = ls @ ds \<and> ls \<noteq> [] \<and> ds \<noteq> [] \<and> list_all isUpper ls \<and> list_all isDigit ds"
proof
  assume "matchRegister reg = Some (ls, ds)"
  then have "ls = takeWhile isUpper reg" "ds = dropWhile isUpper reg"
      "ls \<noteq> []" "ds \<noteq> []" "list_all isDigit ds"
    by (auto simp: matchRegister_def Let_def split: if_splits)
  then show "reg = ls @ ds \<and> ls \<noteq> [] \<and> ds \<noteq> [] \<and> list_all isUpper ls \<and> list_all isDigit ds"
    by (auto simp: list_all_iff dest: set_takeWhileD)
next
  assume a: "reg = ls @ ds \<and> ls \<noteq> [] \<and> ds \<noteq> [] \<and> list_all isUpper ls \<and> list_all isDigit ds"
  then have "isDigit (hd ds)" by (cases ds) auto
  then have "\<not> isUpper (hd ds)" by (rule digit_not_upper)
  with a have "takeWhile isUpper reg = ls" "dropWhile isUpper reg = ds"
    by (auto intro: takeWhile_dropWhile_split)
  with a show "matchRegister reg = Some (ls, ds)"
    by (simp add: matchRegister_def Let_def)
qed

lemma digit_not_letter: "isDigit c \<Longrightarrow> \<not> isLetter c"
  by (simp add: isDigit_def isLetter_def isUpper_def)

lemma describedName_iff:
  "describedName reg \<longleftrightarrow>
     (\<exists>ls ds. reg = ls @ ds \<and> ls \<noteq> [] \<and> ds \<noteq> [] \<and> list_all isLetter ls \<and> list_all isDigit ds)"
proof
  assume "describedName reg"
  then have "reg = takeWhile isLetter reg @ dropWhile isLetter reg \<and> takeWhile isLetter reg \<noteq> [] \<and>
      dropWhile isLetter reg \<noteq> [] \<and> list_all isLetter (takeWhile isLetter reg) \<and>
      list_all isDigit (dropWhile isLetter reg)"
    by (auto simp: describedName_def Let_def list_all_iff dest: set_takeWhileD)
  then show "\<exists>ls ds. reg = ls @ ds \<and> ls \<noteq> [] \<and> ds \<noteq> [] \<and> list_all isLetter ls \<and> list_all isDigit ds"
    by (intro exI)
next
  assume "\<exists>ls ds. reg = ls @ ds \<and> ls \<noteq> [] \<and> ds \<noteq> [] \<and> list_all isLetter ls \<and> list_all isDigit ds"
  then obtain ls ds where a: "reg = ls @ ds" "ls \<noteq> []" "ds \<noteq> []" "list_all isLetter ls"
      "list_all isDigit ds"
    by blast
  then have "isDigit (hd ds)" by (cases ds) auto
  then have "\<not> isLetter (hd ds)" by (rule digit_not_letter)
  with a have "takeWhile isLetter reg = ls" "dropWhile isLetter reg = ds"
    by (auto intro: takeWhile_dropWhile_split)
  with a show "describedName reg"
    by (simp add: describedName_def Let_def)
qed

lemma digit_radix10: "isDigit c \<Longrightarrow> radixDigit 10 c \<and> c \<noteq> CHR ''-'' \<and> c \<noteq> CHR ''+''"
  by (auto simp: isDigit_def radixDigit_def digitValue_def Let_def)

lemma parseInt_digits:
  assumes "ds \<noteq> []" "list_all isDigit ds"
  shows "parseInt ds 10 = Some (toDouble (int (digitsValue 10 ds)))"
proof -
  obtain c cs where d: "ds = c # cs" using assms(1) by (cases ds) auto
  with assms(2) have "isDigit c" by simp
  then have c: "c \<noteq> CHR ''-''" "c \<noteq> CHR ''+''" using digit_radix10 by blast+
  have t: "takeWhile (radixDigit 10) ds = ds"
    using assms(2) digit_radix10 by (auto simp: list_all_iff takeWhile_eq_all_conv)
  have "parseDigits ds 10 = Some (toDouble (int (digitsValue 10 ds)))"
    unfolding parseDigits_def Let_def t using assms(1) by simp
  then show ?thesis using c by (simp add: parseInt_def d)
qed

lemma matchRegister_Some:
  assumes "matchRegister reg = Some (ls, ds)"
  shows "ls = takeWhile isUpper reg" "ds = dropWhile isUpper reg" "ds \<noteq> []" "list_all isDigit ds"
  using assms by (auto simp: matchRegister_def Let_def split: if_splits)

lemma plcReadAddresses_ok:
  "\<forall>reg\<in>set regs. matchRegister reg \<noteq> None \<Longrightarrow>
   plcReadAddresses regs =
     Inr (map (\<lambda>reg. \<lparr>device = takeWhile isUpper reg,
                       address = toDouble (int (digitsValue 10 (dropWhile isUpper reg))),
                       count = None\<rparr>) regs)"
proof (induction regs)
  case Nil
  then show ?case by simp
next
  case (Cons reg regs)
  then obtain ls ds where m: "matchRegister reg = Some (ls, ds)" by auto
  note s = matchRegister_Some [OF m]
  have "parseInt ds 10 = Some (toDouble (int (digitsValue 10 ds)))"
    using s(3,4) by (rule parseInt_digits)
  then show ?case using Cons m s(1,2) by simp
qed

lemma plcReadAddresses_bad:
  "\<exists>reg\<in>set regs. matchRegister reg = None \<Longrightarrow>
   \<exists>reg\<in>set regs. matchRegister reg = None \<and>
      plcReadAddresses regs = Inl (InvalidAddressFormat reg)"
proof (induction regs)
  case Nil
  then show ?case by simp
next
  case (Cons reg regs)
  show ?case
  proof (cases "matchRegister reg")
    case None
    then show ?thesis by simp
  next
    case (Some p)
    with Cons.prems have "\<exists>reg\<in>set regs. matchRegister reg = None" by auto
    then obtain bad where "bad \<in> set regs" "matchRegister bad = None"
        "plcReadAddresses regs = Inl (InvalidAddressFormat bad)"
      using Cons.IH by blast
    then show ?thesis using Some by (cases p) auto
  qed
qed

lemma matchRegister_None_iff:
  "matchRegister reg = None \<longleftrightarrow>
     \<not> (\<exists>ls ds. reg = ls @ ds \<and> ls \<noteq> [] \<and> ds \<noteq> [] \<and> list_all isUpper ls \<and> list_all isDigit ds)"
  using matchRegister_iff [of reg] by (cases "matchRegister reg") auto

text \<open>
  Claim C8, as it is stated, fails: the pattern of \<open>plcRead\<close> is \<open>/^([A-Z]+)(\d+)$/\<close>, with
  upper-case letters only. The name \<open>d0\<close> has the described form (letters of either case,
  then digits), and \<open>plcRead\<close> rejects it as an invalid register format.
\<close>

theorem plcRead_lowercase_counterexample:
  "describedName ''d0'' \<and>
   plcReadAddresses [''d0''] = Inl (InvalidAddressFormat ''d0'') \<and>
   plcRead (run [CallConnect, SocketConnected 0] (initial \<lparr>plcType = Q, timeout = 5000\<rparr>)) [''d0'']
     = (Failed (InvalidAddressFormat ''d0''),
        run [CallConnect, SocketConnected 0] (initial \<lparr>plcType = Q, timeout = 5000\<rparr>))"
  by code_simp

text \<open>
  Claim C8, amended. \<open>plcRead\<close> accepts the names made of one or more upper-case letters
  followed by one or more decimal digits: if all names have that form, each is parsed
  into its letters and its number; where the numbers are below \<open>2 ^ 53\<close>, and so exact as
  a \<open>Number\<close>, the offsets are the decimal values of the digits, and the read goes on with
  those addresses. If some name has not that form, \<open>plcRead\<close> fails with the
  invalid-format error of such a name and leaves the engine as it was: nothing is written
  to the socket and no request is registered.
\<close>

theorem plcRead_names:
  "((\<forall>reg\<in>set registers. \<exists>ls ds. reg = ls @ ds \<and> ls \<noteq> [] \<and> ds \<noteq> [] \<and>
        list_all isUpper ls \<and> list_all isDigit ds) \<longrightarrow>
      (\<exists>addresses. plcReadAddresses registers = Inr addresses \<and>
         map device addresses = map (takeWhile isUpper) registers \<and>
         ((\<forall>reg\<in>set registers. digitsValue 10 (dropWhile isUpper reg) < 2 ^ 53) \<longrightarrow>
            map address addresses
              = map (\<lambda>reg. int (digitsValue 10 (dropWhile isUpper reg))) registers \<and>
            plcRead w registers = batchReadWordUnits w addresses))) \<and>
   ((\<exists>reg\<in>set registers. \<not> (\<exists>ls ds. reg = ls @ ds \<and> ls \<noteq> [] \<and> ds \<noteq> [] \<and>
        list_all isUpper ls \<and> list_all isDigit ds)) \<longrightarrow>
      (\<exists>reg\<in>set registers.
         \<not> (\<exists>ls ds. reg = ls @ ds \<and> ls \<noteq> [] \<and> ds \<noteq> [] \<and>
              list_all isUpper ls \<and> list_all isDigit ds) \<and>
         plcReadAddresses registers = Inl (InvalidAddressFormat reg) \<and>
         plcRead w registers = (Failed (InvalidAddressFormat reg), w)))"
proof (intro conjI impI)
  let ?addresses = "map (\<lambda>reg. \<lparr>device = takeWhile isUpper reg,
                       address = toDouble (int (digitsValue 10 (dropWhile isUpper reg))),
                       count = None\<rparr>) registers"
  assume "\<forall>reg\<in>set registers. \<exists>ls ds. reg = ls @ ds \<and> ls \<noteq> [] \<and> ds \<noteq> [] \<and>
        list_all isUpper ls \<and> list_all isDigit ds"
  then have "\<forall>reg\<in>set registers. matchRegister reg \<noteq> None"
    by (simp add: matchRegister_None_iff)
  then have a: "plcReadAddresses registers = Inr ?addresses"
    by (rule plcReadAddresses_ok)
  have d: "map device ?addresses = map (takeWhile isUpper) registers"
    by (simp add: comp_def)
  have n: "map address ?addresses
             = map (\<lambda>reg. int (digitsValue 10 (dropWhile isUpper reg))) registers \<and>
           plcRead w registers = batchReadWordUnits w ?addresses"
    if "\<forall>reg\<in>set registers. digitsValue 10 (dropWhile isUpper reg) < 2 ^ 53"
    using that by (simp add: comp_def toDouble_exact_nat a plcRead_def)
  show "\<exists>addresses. plcReadAddresses registers = Inr addresses \<and>
         map device addresses = map (takeWhile isUpper) registers \<and>
         ((\<forall>reg\<in>set registers. digitsValue 10 (dropWhile isUpper reg) < 2 ^ 53) \<longrightarrow>
            map address addresses
              = map (\<lambda>reg. int (digitsValue 10 (dropWhile isUpper reg))) registers \<and>
            plcRead w registers = batchReadWordUnits w addresses)"
    using a d n by (intro exI [of _ ?addresses] conjI impI) simp_all
next
  assume "\<exists>reg\<in>set registers. \<not> (\<exists>ls ds. reg = ls @ ds \<and> ls \<noteq> [] \<and> ds \<noteq> [] \<and>
        list_all isUpper ls \<and> list_all isDigit ds)"
  then have "\<exists>reg\<in>set registers. matchRegister reg = None"
    by (simp add: matchRegister_None_iff)
  then obtain bad where b: "bad \<in> set registers" "matchRegister bad = None"
      "plcReadAddresses registers = Inl (InvalidAddressFormat bad)"
    using plcReadAddresses_bad by blast
  have "plcRead w registers = (Failed (InvalidAddressFormat bad), w)"
    by (simp add: plcRead_def b(3))
  with b show "\<exists>reg\<in>set registers.
         \<not> (\<exists>ls ds. reg = ls @ ds \<and> ls \<noteq> [] \<and> ds \<noteq> [] \<and>
              list_all isUpper ls \<and> list_all isDigit ds) \<and>
         plcReadAddresses registers = Inl (InvalidAddressFormat reg) \<and>
         plcRead w registers = (Failed (InvalidAddressFormat reg), w)"
    using matchRegister_None_iff by blast
qed

theorem plcRead_names_witness:
  "(\<exists>addresses. plcReadAddresses [''D0'', ''ZR12''] = Inr addresses \<and>
      map device addresses = [''D'', ''ZR''] \<and> map address addresses = [0, 12]) \<and>
   plcRead (run [CallConnect, SocketConnected 0] (initial \<lparr>plcType = Q, timeout = 5000\<rparr>)) [''D0'', ''D1x'']
     = (Failed (InvalidAddressFormat ''D1x''),
        run [CallConnect, SocketConnected 0] (initial \<lparr>plcType = Q, timeout = 5000\<rparr>))"
proof -
  let ?w = "run [CallConnect, SocketConnected 0] (initial \<lparr>plcType = Q, timeout = 5000\<rparr>)"
  have "\<forall>reg\<in>set [''D0'', ''ZR12'']. matchRegister reg \<noteq> None" by code_simp
  then have g: "\<forall>reg\<in>set [''D0'', ''ZR12'']. \<exists>ls ds. reg = ls @ ds \<and> ls \<noteq> [] \<and> ds \<noteq> [] \<and>
        list_all isUpper ls \<and> list_all isDigit ds"
    by (simp only: matchRegister_None_iff not_not)
  have v: "map (takeWhile isUpper) [''D0'', ''ZR12''] = [''D'', ''ZR'']"
      "map (\<lambda>reg. int (digitsValue 10 (dropWhile isUpper reg))) [''D0'', ''ZR12''] = [0, 12]"
    by code_simp+
  have "digitsValue 10 (dropWhile isUpper ''D0'') = 0"
      "digitsValue 10 (dropWhile isUpper ''ZR12'') = 12"
    by code_simp+
  then have k: "\<forall>reg\<in>set [''D0'', ''ZR12'']. digitsValue 10 (dropWhile isUpper reg) < 2 ^ 53"
    by simp
  from plcRead_names [of "[''D0'', ''ZR12'']" ?w, THEN conjunct1, THEN mp, OF g]
  obtain addresses where a: "plcReadAddresses [''D0'', ''ZR12''] = Inr addresses"
      "map device addresses = map (takeWhile isUpper) [''D0'', ''ZR12'']"
      "(\<forall>reg\<in>set [''D0'', ''ZR12'']. digitsValue 10 (dropWhile isUpper reg) < 2 ^ 53) \<longrightarrow>
         map address addresses
           = map (\<lambda>reg. int (digitsValue 10 (dropWhile isUpper reg))) [''D0'', ''ZR12''] \<and>
         plcRead ?w [''D0'', ''ZR12''] = batchReadWordUnits ?w addresses"
    by (elim exE conjE)
  from a(3) k have "map address addresses
           = map (\<lambda>reg. int (digitsValue 10 (dropWhile isUpper reg))) [''D0'', ''ZR12'']"
    by (elim impE conjE)
  with a(1,2) have 1: "\<exists>addresses. plcReadAddresses [''D0'', ''ZR12''] = Inr addresses \<and>
      map device addresses = [''D'', ''ZR''] \<and> map address addresses = [0, 12]"
    unfolding v by (intro exI [of _ addresses] conjI)
  have n: "matchRegister ''D1x'' = None" "matchRegister ''D0'' \<noteq> None" by code_simp+
  have "\<exists>reg\<in>set [''D0'', ''D1x'']. matchRegister reg = None" by code_simp
  then have b: "\<exists>reg\<in>set [''D0'', ''D1x'']. \<not> (\<exists>ls ds. reg = ls @ ds \<and> ls \<noteq> [] \<and> ds \<noteq> [] \<and>
        list_all isUpper ls \<and> list_all isDigit ds)"
    by (simp only: matchRegister_None_iff)
  from plcRead_names [of "[''D0'', ''D1x'']" ?w, THEN conjunct2, THEN mp, OF b]
  obtain reg where r: "reg \<in> set [''D0'', ''D1x'']"
      "\<not> (\<exists>ls ds. reg = ls @ ds \<and> ls \<noteq> [] \<and> ds \<noteq> [] \<and> list_all isUpper ls \<and> list_all isDigit ds)"
      "plcRead ?w [''D0'', ''D1x''] = (Failed (InvalidAddressFormat reg), ?w)"
    by blast
  from r(2) have "matchRegister reg = None" by (rule matchRegister_None_iff [THEN iffD2])
  moreover from r(1) have "reg = ''D0'' \<or> reg = ''D1x''" by simp
  ultimately have "reg = ''D1x''" using n(2) by blast
  with r(3) 1 show ?thesis by blast
qed

subsection \<open>Connection state\<close>

lemma cleanup_fold:
  "fold (\<lambda>requestId v. settle requestId r (clearTimeout requestId v)) ids w
     = w\<lparr>timers := timers w - set ids, settled := settled w @ map (\<lambda>i. (i, r)) ids\<rparr>"
proof (induction ids arbitrary: w)
  case Nil
  then show ?case by simp
next
  case (Cons i ids)
  let ?F = "\<lambda>requestId v. settle requestId r (clearTimeout requestId v)"
  have d: "timers w - {i} - set ids = timers w - insert i (set ids)" by blast
  have "fold ?F (i # ids) w = fold ?F ids (settle i r (clearTimeout i w))" by simp
  also have "\<dots> = (settle i r (clearTimeout i w))
      \<lparr>timers := timers (settle i r (clearTimeout i w)) - set ids,
       settled := settled (settle i r (clearTimeout i w)) @ map (\<lambda>i. (i, r)) ids\<rparr>"
    by (rule Cons.IH)
  also have "\<dots> = w\<lparr>timers := timers w - set (i # ids),
                      settled := settled w @ map (\<lambda>i. (i, r)) (i # ids)\<rparr>"
    by (simp add: settle_def clearTimeout_def d)
  finally show ?case .
qed

lemma cleanup_eq:
  "cleanup w =
     w\<lparr>isConnected := False, responseBuffer := [], pendingRequests := [],
       timers := timers w - set (pendingRequests w),
       settled := settled w @ map (\<lambda>i. (i, Rejected ConnectionClosed)) (pendingRequests w)\<rparr>"
  by (simp add: cleanup_def Let_def cleanup_fold)

text \<open>
  Claim C7. The handler of the socket's \<open>'close'\<close> event, and a call of \<open>disconnect\<close> on a
  connected engine, leave the engine not connected, with an empty inbound buffer and an
  empty pending set; the timer of every request that was pending is cleared and its
  continuation is called once, with the rejection \<open>'Connection closed'\<close>, in the order in
  which the requests were registered. Nothing else changes (but the socket that
  \<open>disconnect\<close> destroys).
\<close>

theorem close_aborts_all:
  "onClose w =
     w\<lparr>isConnected := False, responseBuffer := [], pendingRequests := [],
       timers := timers w - set (pendingRequests w),
       settled := settled w @ map (\<lambda>i. (i, Rejected ConnectionClosed)) (pendingRequests w)\<rparr> \<and>
   (socket w = Some s \<and> isConnected w \<longrightarrow>
      disconnect w =
        w\<lparr>isConnected := False, responseBuffer := [], pendingRequests := [],
          destroyed := destroyed w @ [s],
          timers := timers w - set (pendingRequests w),
          settled := settled w @ map (\<lambda>i. (i, Rejected ConnectionClosed)) (pendingRequests w)\<rparr>)"
  by (simp add: onClose_def disconnect_def cleanup_eq)

theorem close_aborts_all_witness:
  "settled (onClose (run [CallConnect, SocketConnected 0, CallSendRequest [1], CallSendRequest [2]]
                       (initial \<lparr>plcType = Q, timeout = 5000\<rparr>)))
     = [(1, Rejected ConnectionClosed), (2, Rejected ConnectionClosed)] \<and>
   pendingRequests (onClose (run [CallConnect, SocketConnected 0, CallSendRequest [1], CallSendRequest [2]]
                       (initial \<lparr>plcType = Q, timeout = 5000\<rparr>))) = [] \<and>
   settled (disconnect (run [CallConnect, SocketConnected 0, CallSendRequest [1], CallSendRequest [2]]
                       (initial \<lparr>plcType = Q, timeout = 5000\<rparr>)))
     = [(1, Rejected ConnectionClosed), (2, Rejected ConnectionClosed)] \<and>
   timers (disconnect (run [CallConnect, SocketConnected 0, CallSendRequest [1], CallSendRequest [2]]
                       (initial \<lparr>plcType = Q, timeout = 5000\<rparr>))) = {} \<and>
   \<not> isConnected (disconnect (run [CallConnect, SocketConnected 0, CallSendRequest [1], CallSendRequest [2]]
                       (initial \<lparr>plcType = Q, timeout = 5000\<rparr>)))"
proof -
  define W where "W = run [CallConnect, SocketConnected 0, CallSendRequest [1], CallSendRequest [2]]
                       (initial \<lparr>plcType = Q, timeout = 5000\<rparr>)"
  have s: "socket W = Some 0 \<and> isConnected W" unfolding W_def by code_simp
  have p: "pendingRequests W = [1, 2]" "settled W = []" "timers W = {1, 2}"
    unfolding W_def by code_simp+
  note t = close_aborts_all [of W 0]
  from t have c: "onClose W =
     W\<lparr>isConnected := False, responseBuffer := [], pendingRequests := [],
       timers := timers W - set (pendingRequests W),
       settled := settled W @ map (\<lambda>i. (i, Rejected ConnectionClosed)) (pendingRequests W)\<rparr>"
    by (rule conjunct1)
  from t s have d: "disconnect W =
        W\<lparr>isConnected := False, responseBuffer := [], pendingRequests := [],
          destroyed := destroyed W @ [0],
          timers := timers W - set (pendingRequests W),
          settled := settled W @ map (\<lambda>i. (i, Rejected ConnectionClosed)) (pendingRequests W)\<rparr>"
    by blast
  have "settled (onClose W) = [(1, Rejected ConnectionClosed), (2, Rejected ConnectionClosed)] \<and>
        pendingRequests (onClose W) = [] \<and>
        settled (disconnect W) = [(1, Rejected ConnectionClosed), (2, Rejected ConnectionClosed)] \<and>
        timers (disconnect W) = {} \<and> \<not> isConnected (disconnect W)"
    by (simp add: c d p)
  then show ?thesis unfolding W_def .
qed

text \<open>
  Claim C10. On an engine that is connected, \<open>connect\<close> resolves at once and returns the
  engine unchanged: no socket is made, no timer set, and the pending set and the inbound
  buffer are as before.
\<close>

theorem connect_when_connected:
  "isConnected w \<Longrightarrow> connect w = (ResolvedNow, w)"
  by (simp add: connect_def)

theorem connect_when_connected_witness:
  "isConnected (run [CallConnect, SocketConnected 0, CallSendRequest [0x54, 0x00]]
                  (initial \<lparr>plcType = Q, timeout = 5000\<rparr>)) \<and>
   connect (run [CallConnect, SocketConnected 0, CallSendRequest [0x54, 0x00]]
              (initial \<lparr>plcType = Q, timeout = 5000\<rparr>))
     = (ResolvedNow, run [CallConnect, SocketConnected 0, CallSendRequest [0x54, 0x00]]
                       (initial \<lparr>plcType = Q, timeout = 5000\<rparr>))"
proof -
  have c: "isConnected (run [CallConnect, SocketConnected 0, CallSendRequest [0x54, 0x00]]
                  (initial \<lparr>plcType = Q, timeout = 5000\<rparr>))"
    by code_simp
  from connect_when_connected [OF c] c show ?thesis by blast
qed

subsection \<open>Pending requests\<close>

lemma consistent_settle:
  assumes "consistent w"
    and "pendingRequests w' = removeAll i (pendingRequests w)"
    and "timers w' = timers w - {i}"
    and "settled w' = settled w @ [(i, r)]"
    and "requestCounter w' = requestCounter w"
    and "writing w' \<subseteq> writing w"
    and "i \<in> set (pendingRequests w) \<or> i \<in> {1..requestCounter w}"
    and "madeByTheCode r"
  shows "consistent w'"
proof -
  let ?P = "set (pendingRequests w)" and ?S = "fst ` set (settled w)"
  from assms(1) have c: "distinct (pendingRequests w)" "timers w = ?P" "?P \<inter> ?S = {}"
      "?P \<union> ?S = {1..requestCounter w}" "writing w \<subseteq> {1..requestCounter w}"
      "\<forall>c\<in>set (settled w). madeByTheCode (snd c)"
    by (simp_all add: consistent_def)
  have i: "i \<in> ?P \<union> ?S" using assms(7) c(4) by auto
  have "distinct (pendingRequests w')" using c(1) assms(2) by (simp add: distinct_removeAll)
  moreover have "timers w' = set (pendingRequests w')" using c(2) assms(2,3) by auto
  moreover have "set (pendingRequests w') \<inter> fst ` set (settled w') = {}"
    using c(3) assms(2,4) by auto
  moreover have "set (pendingRequests w') \<union> fst ` set (settled w') = {1..requestCounter w'}"
    using c(4) i assms(2,4,5) by auto
  moreover have "writing w' \<subseteq> {1..requestCounter w'}" using c(5) assms(5,6) by auto
  moreover have "\<forall>c\<in>set (settled w'). madeByTheCode (snd c)"
    using c(6) assms(4,8) by auto
  ultimately show ?thesis by (simp add: consistent_def)
qed

lemma consistent_initial: "consistent (initial opts)"
  by (simp add: consistent_def initial_def)

lemma consistent_unrelated:
  assumes "consistent w"
    and "pendingRequests w' = pendingRequests w" "timers w' = timers w"
    and "settled w' = settled w" "requestCounter w' = requestCounter w" "writing w' = writing w"
  shows "consistent w'"
  using assms by (simp add: consistent_def)

lemma consistent_connect: "consistent w \<Longrightarrow> consistent (snd (connect w))"
  by (erule consistent_unrelated) (simp_all add: connect_def Let_def)

lemma consistent_onConnected: "consistent w \<Longrightarrow> consistent (onConnected k w)"
  by (erule consistent_unrelated) (simp_all add: onConnected_def)

lemma consistent_onError: "consistent w \<Longrightarrow> consistent (onError k w)"
  by (erule consistent_unrelated) (simp_all add: onError_def)

lemma consistent_onConnectTimeout: "consistent w \<Longrightarrow> consistent (onConnectTimeout k w)"
  by (erule consistent_unrelated) (simp_all add: onConnectTimeout_def)

lemma consistent_cleanup:
  assumes "consistent w"
  shows "consistent (cleanup w)"
proof -
  let ?P = "set (pendingRequests w)" and ?S = "fst ` set (settled w)"
  from assms have c: "distinct (pendingRequests w)" "timers w = ?P" "?P \<inter> ?S = {}"
      "?P \<union> ?S = {1..requestCounter w}" "writing w \<subseteq> {1..requestCounter w}"
      "\<forall>c\<in>set (settled w). madeByTheCode (snd c)"
    by (simp_all add: consistent_def)
  have u: "fst ` set (settled w) \<union> fst ` (\<lambda>i. (i, Rejected ConnectionClosed)) ` ?P
           = {1..requestCounter w}"
    using c(4) by (auto simp: image_image)
  have k: "\<forall>c\<in>set (settled w) \<union> (\<lambda>i. (i, Rejected ConnectionClosed)) ` ?P. madeByTheCode (snd c)"
    using c(6) by auto
  show ?thesis
    using c u k by (simp add: consistent_def cleanup_eq image_Un Un_commute)
qed

lemma consistent_onClose:
  assumes "consistent w"
  shows "consistent (onClose w)"
proof -
  have "consistent (w\<lparr>isConnected := False\<rparr>)"
    using assms by (rule consistent_unrelated) simp_all
  then show ?thesis unfolding onClose_def by (rule consistent_cleanup)
qed

lemma consistent_disconnect:
  assumes "consistent w"
  shows "consistent (disconnect w)"
proof (cases "socket w")
  case None
  then show ?thesis using assms by (simp add: disconnect_def)
next
  case (Some s)
  have "consistent (w\<lparr>destroyed := destroyed w @ [s]\<rparr>)"
    using assms by (rule consistent_unrelated) simp_all
  then have "consistent (cleanup (w\<lparr>destroyed := destroyed w @ [s]\<rparr>))"
    by (rule consistent_cleanup)
  then show ?thesis using assms Some by (simp add: disconnect_def)
qed

lemma sendRequest_fields:
  assumes "consistent w" "socket w \<noteq> None" "isConnected w"
  shows "pendingRequests (snd (sendRequest w frame)) = pendingRequests w @ [requestCounter w + 1]"
    and "timers (snd (sendRequest w frame)) = insert (requestCounter w + 1) (timers w)"
    and "settled (snd (sendRequest w frame)) = settled w"
    and "requestCounter (snd (sendRequest w frame)) = requestCounter w + 1"
    and "writing (snd (sendRequest w frame)) = insert (requestCounter w + 1) (writing w)"
    and "requestCounter w + 1 \<notin> set (pendingRequests w)"
    and "requestCounter w + 1 \<notin> fst ` set (settled w)"
proof -
  let ?n = "requestCounter w + 1"
  from assms(1) have c: "set (pendingRequests w) \<union> fst ` set (settled w) = {1..requestCounter w}"
    by (simp add: consistent_def)
  have "?n \<notin> {1..requestCounter w}" by simp
  then show n: "?n \<notin> set (pendingRequests w)" "?n \<notin> fst ` set (settled w)"
    using c by blast+
  show "pendingRequests (snd (sendRequest w frame)) = pendingRequests w @ [?n]"
    and "timers (snd (sendRequest w frame)) = insert ?n (timers w)"
    and "settled (snd (sendRequest w frame)) = settled w"
    and "requestCounter (snd (sendRequest w frame)) = ?n"
    and "writing (snd (sendRequest w frame)) = insert ?n (writing w)"
    using assms(2,3) n(1) by (auto simp: sendRequest_def pendingSet_def Let_def)
qed

lemma consistent_sendRequest:
  assumes "consistent w"
  shows "consistent (snd (sendRequest w frame))"
proof (cases "socket w = None \<or> \<not> isConnected w")
  case True
  then show ?thesis using assms by (simp add: sendRequest_def)
next
  case False
  then have s: "socket w \<noteq> None" "isConnected w" by simp_all
  let ?P = "set (pendingRequests w)" and ?S = "fst ` set (settled w)"
  let ?n = "requestCounter w + 1"
  from assms have c: "distinct (pendingRequests w)" "timers w = ?P" "?P \<inter> ?S = {}"
      "?P \<union> ?S = {1..requestCounter w}" "writing w \<subseteq> {1..requestCounter w}"
      "\<forall>c\<in>set (settled w). madeByTheCode (snd c)"
    by (simp_all add: consistent_def)
  note f = sendRequest_fields [OF assms s]
  have r: "{1..?n} = insert ?n {1..requestCounter w}"
    by auto
  let ?w' = "snd (sendRequest w frame)"
  have "distinct (pendingRequests ?w')" using c(1) f(6) f(1) by simp
  moreover have "timers ?w' = set (pendingRequests ?w')" using c(2) f(1,2) by simp
  moreover have "set (pendingRequests ?w') \<inter> fst ` set (settled ?w') = {}"
    using c(3) f(7) f(1,3) by simp
  moreover have "set (pendingRequests ?w') \<union> fst ` set (settled ?w') = {1..requestCounter ?w'}"
    using c(4) by (simp only: f(1-5) r) auto
  moreover have "writing ?w' \<subseteq> {1..requestCounter ?w'}"
    using c(5) by (simp only: f(1-5) r) auto
  moreover have "\<forall>c\<in>set (settled ?w'). madeByTheCode (snd c)" using c(6) f(3) by simp
  ultimately show ?thesis by (simp only: consistent_def simp_thms)
qed

lemma consistent_onTimeout:
  assumes "consistent w" "i \<in> timers w"
  shows "consistent (onTimeout i w)"
proof (rule consistent_settle [OF assms(1), where i = i and r = "Rejected RequestTimeout"])
  show "i \<in> set (pendingRequests w) \<or> i \<in> {1..requestCounter w}"
    using assms by (simp add: consistent_def)
qed (simp_all add: onTimeout_def settle_def pendingDelete_def)

lemma consistent_onWrite:
  assumes "consistent w" "i \<in> writing w"
  shows "consistent (onWrite i err w)"
proof (cases err)
  case False
  from assms(1) have "writing w - {i} \<subseteq> {1..requestCounter w}"
    by (auto simp: consistent_def)
  then show ?thesis using assms(1) False by (simp add: onWrite_def Let_def consistent_def)
next
  case True
  show ?thesis
  proof (rule consistent_settle [OF assms(1), where i = i and r = "Rejected WriteError"])
    show "i \<in> set (pendingRequests w) \<or> i \<in> {1..requestCounter w}"
      using assms by (auto simp: consistent_def)
    show "writing (onWrite i err w) \<subseteq> writing w"
      using True by (auto simp: onWrite_def Let_def settle_def clearTimeout_def pendingDelete_def)
  qed (simp_all add: True onWrite_def Let_def settle_def clearTimeout_def pendingDelete_def)
qed

lemma validateResponse_made:
  assumes "11 \<le> length response"
  shows "madeByTheCode (case validateResponse response of
            Inr _ \<Rightarrow> Resolved response | Inl e \<Rightarrow> Rejected e)"
proof -
  have "readUInt16BE response 0 = Inr (uint (response ! 0) * 2 ^ 8 + uint (response ! (0 + 1)))"
      "readUInt16LE response 9 = Inr (u16le response 9)"
    using assms by (simp_all add: readUInt16BE_def readUInt16LE_def)
  moreover have "15 \<le> length response \<Longrightarrow> readUInt16LE response 13 = Inr (u16le response 13)"
    by (simp add: readUInt16LE_def)
  ultimately show ?thesis
    by (simp add: validateResponse_def)
qed

lemma consistent_processResponse:
  assumes "consistent w" "11 \<le> length response"
  shows "consistent (processResponse w response)"
proof (cases "pendingRequests w")
  case Nil
  then show ?thesis using assms by (simp add: processResponse_def)
next
  case (Cons i rest)
  let ?r = "case validateResponse response of Inr _ \<Rightarrow> Resolved response | Inl e \<Rightarrow> Rejected e"
  show ?thesis
  proof (rule consistent_settle [OF assms(1), where i = i and r = ?r])
    show "i \<in> set (pendingRequests w) \<or> i \<in> {1..requestCounter w}"
      using Cons by simp
    show "madeByTheCode ?r" using assms(2) by (rule validateResponse_made)
  qed (simp_all add: Cons processResponse_def Let_def settle_def clearTimeout_def pendingDelete_def
         split: sum.splits)
qed

lemma consistent_buffer:
  "consistent (w\<lparr>responseBuffer := b\<rparr>) = consistent w"
  by (simp add: consistent_def)

lemma consistent_extractLoop: "consistent w \<Longrightarrow> consistent (snd (extractLoop w))"
proof (induction w rule: extractLoop.induct)
  case (1 w)
  show ?case
  proof (cases "13 \<le> length (responseBuffer w) \<and>
                13 + nat (u16le (responseBuffer w) 11) \<le> length (responseBuffer w)")
    case False
    then show ?thesis using 1(2) by (subst extractLoop.simps) (auto simp: Let_def)
  next
    case True
    let ?t = "13 + nat (u16le (responseBuffer w) 11)"
    let ?w1 = "w\<lparr>responseBuffer := drop ?t (responseBuffer w)\<rparr>"
    let ?w2 = "processResponse ?w1 (take ?t (responseBuffer w))"
    have "11 \<le> length (take ?t (responseBuffer w))" using True by simp
    then have "consistent ?w2"
      using 1(2) by (intro consistent_processResponse) (simp_all add: consistent_buffer)
    then have "consistent (snd (extractLoop ?w2))"
      using True by (intro 1(1)) simp_all
    then show ?thesis using True by (subst extractLoop.simps) (simp add: Let_def)
  qed
qed

lemma consistent_handleResponse: "consistent w \<Longrightarrow> consistent (snd (handleResponse w chunk))"
  unfolding handleResponse_def
  by (rule consistent_extractLoop) (simp add: consistent_buffer)

lemma consistent_fire: "consistent w \<Longrightarrow> consistent (fire e w)"
  by (cases e)
     (simp_all add: consistent_connect consistent_disconnect consistent_sendRequest
        consistent_onConnected consistent_onError consistent_onClose consistent_handleResponse
        consistent_onConnectTimeout consistent_onWrite consistent_onTimeout)

lemma consistent_run: "consistent w \<Longrightarrow> consistent (run es w)"
  unfolding run_def by (induction es arbitrary: w) (simp_all add: consistent_fire)

lemma removes_same:
  "settled w' = settled w \<Longrightarrow> pendingRequests w' = pendingRequests w \<Longrightarrow> removes w w'"
  by (simp add: removes_def)

lemma removes_trans:
  assumes "removes w w1" "removes w1 w2"
  shows "removes w w2"
proof -
  from assms(1) obtain n1 where 1: "settled w1 = settled w @ n1" "distinct (map fst n1)"
      "fst ` set n1 = set (pendingRequests w) - set (pendingRequests w1)"
      "set (pendingRequests w1) \<subseteq> set (pendingRequests w)"
    unfolding removes_def by blast
  from assms(2) obtain n2 where 2: "settled w2 = settled w1 @ n2" "distinct (map fst n2)"
      "fst ` set n2 = set (pendingRequests w1) - set (pendingRequests w2)"
      "set (pendingRequests w2) \<subseteq> set (pendingRequests w1)"
    unfolding removes_def by blast
  have "settled w2 = settled w @ (n1 @ n2)" using 1(1) 2(1) by simp
  moreover have "distinct (map fst (n1 @ n2))"
    using 1(2,3) 2(2,3) by auto
  moreover have "fst ` set (n1 @ n2) = set (pendingRequests w) - set (pendingRequests w2)"
    using 1(3,4) 2(3,4) by (auto simp: image_Un)
  moreover have "set (pendingRequests w2) \<subseteq> set (pendingRequests w)"
    using 1(4) 2(4) by blast
  ultimately show ?thesis unfolding removes_def by blast
qed

lemma removes_settle:
  assumes "distinct (pendingRequests w)" "i \<in> set (pendingRequests w)"
    and "pendingRequests w' = removeAll i (pendingRequests w)"
    and "settled w' = settled w @ [(i, r)]"
  shows "removes w w'"
  unfolding removes_def
  using assms by (intro exI [of _ "[(i, r)]"]) auto

lemma removes_processResponse:
  assumes "distinct (pendingRequests w)"
  shows "removes w (processResponse w response)"
proof (cases "pendingRequests w")
  case Nil
  then show ?thesis by (simp add: processResponse_def removes_same)
next
  case (Cons i rest)
  let ?r = "case validateResponse response of Inr _ \<Rightarrow> Resolved response | Inl e \<Rightarrow> Rejected e"
  show ?thesis
  proof (rule removes_settle [OF assms, where i = i and r = ?r])
    show "i \<in> set (pendingRequests w)" using Cons by simp
  qed (simp_all add: Cons processResponse_def Let_def settle_def clearTimeout_def pendingDelete_def
         split: sum.splits)
qed

lemma removes_extractLoop: "consistent w \<Longrightarrow> removes w (snd (extractLoop w))"
proof (induction w rule: extractLoop.induct)
  case (1 w)
  show ?case
  proof (cases "13 \<le> length (responseBuffer w) \<and>
                13 + nat (u16le (responseBuffer w) 11) \<le> length (responseBuffer w)")
    case False
    then have "snd (extractLoop w) = w" by (subst extractLoop.simps) (auto simp: Let_def)
    then show ?thesis by (simp add: removes_same)
  next
    case True
    let ?t = "13 + nat (u16le (responseBuffer w) 11)"
    let ?w1 = "w\<lparr>responseBuffer := drop ?t (responseBuffer w)\<rparr>"
    let ?w2 = "processResponse ?w1 (take ?t (responseBuffer w))"
    have c1: "consistent ?w1" using 1(2) by (simp add: consistent_buffer)
    have "11 \<le> length (take ?t (responseBuffer w))" using True by simp
    with c1 have c2: "consistent ?w2" by (rule consistent_processResponse)
    have "removes w ?w1" by (rule removes_same) simp_all
    moreover have "removes ?w1 ?w2"
      using c1 by (intro removes_processResponse) (simp add: consistent_def)
    moreover have "removes ?w2 (snd (extractLoop ?w2))"
      using True c2 by (intro 1(1)) simp_all
    ultimately have "removes w (snd (extractLoop ?w2))"
      by (blast intro: removes_trans)
    then show ?thesis using True by (subst extractLoop.simps) (simp add: Let_def)
  qed
qed

lemma removes_handleResponse:
  assumes "consistent w"
  shows "removes w (snd (handleResponse w chunk))"
proof -
  let ?w1 = "w\<lparr>responseBuffer := responseBuffer w @ chunk\<rparr>"
  have "removes w ?w1" by (rule removes_same) simp_all
  moreover have "removes ?w1 (snd (extractLoop ?w1))"
    using assms by (intro removes_extractLoop) (simp add: consistent_buffer)
  ultimately show ?thesis unfolding handleResponse_def by (rule removes_trans)
qed

lemma removes_cleanup:
  assumes "distinct (pendingRequests w)"
  shows "removes w (cleanup w)"
  unfolding removes_def
  using assms
  by (intro exI [of _ "map (\<lambda>i. (i, Rejected ConnectionClosed)) (pendingRequests w)"])
     (simp add: cleanup_eq comp_def image_image)

lemma removes_onClose: "consistent w \<Longrightarrow> removes w (onClose w)"
proof -
  assume c: "consistent w"
  have "removes w (w\<lparr>isConnected := False\<rparr>)" by (rule removes_same) simp_all
  moreover have "removes (w\<lparr>isConnected := False\<rparr>) (cleanup (w\<lparr>isConnected := False\<rparr>))"
    using c by (intro removes_cleanup) (simp add: consistent_def)
  ultimately show ?thesis unfolding onClose_def by (rule removes_trans)
qed

lemma removes_disconnect:
  assumes "consistent w"
  shows "removes w (disconnect w)"
proof (cases "socket w")
  case None
  then show ?thesis by (simp add: disconnect_def removes_same)
next
  case (Some s)
  show ?thesis
  proof (cases "isConnected w")
    case False
    then show ?thesis using Some by (simp add: disconnect_def removes_same)
  next
    case True
    let ?w1 = "w\<lparr>destroyed := destroyed w @ [s]\<rparr>"
    have "removes w ?w1" by (rule removes_same) simp_all
    moreover have "removes ?w1 (cleanup ?w1)"
      using assms by (intro removes_cleanup) (simp add: consistent_def)
    ultimately have "removes w (cleanup ?w1)" by (rule removes_trans)
    then show ?thesis using Some True by (simp add: disconnect_def)
  qed
qed

lemma removes_onTimeout:
  assumes "consistent w" "i \<in> timers w"
  shows "removes w (onTimeout i w)"
proof (rule removes_settle [where i = i and r = "Rejected RequestTimeout"])
  show "distinct (pendingRequests w)" "i \<in> set (pendingRequests w)"
    using assms by (simp_all add: consistent_def)
qed (simp_all add: onTimeout_def settle_def pendingDelete_def)

text \<open>What \<open>removes\<close> says without its last clause holds of \<open>sendRequest\<close> too.\<close>

lemma calls_of_fire:
  assumes "consistent w" "\<forall>k err. e \<noteq> WriteCallback k err"
  shows "\<exists>new. settled (fire e w) = settled w @ new \<and> distinct (map fst new) \<and>
           fst ` set new = set (pendingRequests w) - set (pendingRequests (fire e w))"
proof -
  have r: "removes w w' \<Longrightarrow> \<exists>new. settled w' = settled w @ new \<and> distinct (map fst new) \<and>
           fst ` set new = set (pendingRequests w) - set (pendingRequests w')" for w'
    unfolding removes_def by blast
  show ?thesis
  proof (cases e)
    case CallConnect
    have "removes w (snd (connect w))"
      by (rule removes_same) (simp_all add: connect_def Let_def)
    then show ?thesis using CallConnect by (simp add: r)
  next
    case CallDisconnect
    then show ?thesis using removes_disconnect [OF assms(1)] by (simp add: r)
  next
    case (CallSendRequest frame)
    have "settled (snd (sendRequest w frame)) = settled w \<and>
          set (pendingRequests w) \<subseteq> set (pendingRequests (snd (sendRequest w frame)))"
      by (auto simp: sendRequest_def pendingSet_def Let_def)
    then show ?thesis using CallSendRequest by (intro exI [of _ "[]"]) auto
  next
    case (SocketConnected k)
    have "removes w (onConnected k w)" by (rule removes_same) (simp_all add: onConnected_def)
    moreover have "removes w w" by (rule removes_same) simp_all
    ultimately show ?thesis using SocketConnected by (simp add: r)
  next
    case (SocketError k)
    have "removes w (onError k w)" by (rule removes_same) (simp_all add: onError_def)
    moreover have "removes w w" by (rule removes_same) simp_all
    ultimately show ?thesis using SocketError by (simp add: r)
  next
    case (SocketClose k)
    have "removes w w" by (rule removes_same) simp_all
    then show ?thesis using SocketClose removes_onClose [OF assms(1)] by (simp add: r)
  next
    case (SocketData k chunk)
    have "removes w w" by (rule removes_same) simp_all
    then show ?thesis using SocketData removes_handleResponse [OF assms(1)] by (simp add: r)
  next
    case (ConnectTimeout k)
    have "removes w (onConnectTimeout k w)"
      by (rule removes_same) (simp_all add: onConnectTimeout_def)
    moreover have "removes w w" by (rule removes_same) simp_all
    ultimately show ?thesis using ConnectTimeout by (simp add: r)
  next
    case (WriteCallback k err)
    with assms(2) show ?thesis by blast
  next
    case (TimeoutFires i)
    have "removes w w" by (rule removes_same) simp_all
    then show ?thesis using TimeoutFires removes_onTimeout [OF assms(1)] by (simp add: r)
  qed
qed

lemma settled_grows_fire:
  assumes "consistent w"
  shows "\<exists>new. settled (fire e w) = settled w @ new"
proof (cases "\<exists>k err. e = WriteCallback k err")
  case True
  then show ?thesis
    by (auto simp: onWrite_def Let_def settle_def clearTimeout_def pendingDelete_def)
next
  case False
  then have "\<forall>k err. e \<noteq> WriteCallback k err" by blast
  from calls_of_fire [OF assms this] show ?thesis by blast
qed

lemma settled_grows_run:
  "consistent w \<Longrightarrow> \<exists>new. settled (run es w) = settled w @ new"
proof (induction es arbitrary: w)
  case Nil
  then show ?case by (simp add: run_def)
next
  case (Cons e es)
  from settled_grows_fire [OF Cons.prems] obtain n1 where 1: "settled (fire e w) = settled w @ n1"
    by blast
  have "consistent (fire e w)" using Cons.prems by (rule consistent_fire)
  from Cons.IH [OF this] obtain n2 where 2: "settled (run es (fire e w)) = settled (fire e w) @ n2"
    by blast
  have "run (e # es) w = run es (fire e w)" by (simp add: run_def)
  with 1 2 show ?case by simp
qed

lemma delivered_append:
  "map_of calls i = Some r \<Longrightarrow> map_of (calls @ new) i = Some r"
  by (simp add: map_add_Some_iff)

lemma delivered_stays:
  assumes "consistent w" "delivered w i = Some r"
  shows "delivered (run es w) i = Some r"
proof -
  from settled_grows_run [OF assms(1)] obtain new where "settled (run es w) = settled w @ new"
    by blast
  with assms(2) show ?thesis by (simp add: delivered_def delivered_append)
qed

lemma pending_or_delivered:
  assumes "consistent w" "i \<in> {1..requestCounter w}"
  shows "(i \<in> set (pendingRequests w) \<and> i \<in> timers w \<and> delivered w i = None) \<or>
         (i \<notin> set (pendingRequests w) \<and> i \<notin> timers w \<and>
            (\<exists>r. delivered w i = Some r \<and> madeByTheCode r))"
proof -
  let ?P = "set (pendingRequests w)" and ?S = "fst ` set (settled w)"
  from assms(1) have c: "timers w = ?P" "?P \<inter> ?S = {}" "?P \<union> ?S = {1..requestCounter w}"
      "\<forall>c\<in>set (settled w). madeByTheCode (snd c)"
    by (simp_all add: consistent_def)
  show ?thesis
  proof (cases "i \<in> ?P")
    case True
    with c(2) have "i \<notin> ?S" by blast
    then have "delivered w i = None" by (simp add: delivered_def map_of_eq_None_iff)
    with True c(1) show ?thesis by simp
  next
    case False
    with assms(2) c(3) have "i \<in> ?S" by blast
    then obtain r where r: "delivered w i = Some r"
      unfolding delivered_def by (metis map_of_eq_None_iff not_Some_eq)
    then have "(i, r) \<in> set (settled w)" unfolding delivered_def by (rule map_of_SomeD)
    with c(4) have "madeByTheCode r" by force
    with False c(1) r show ?thesis by blast
  qed
qed

lemma timeout_delivers:
  assumes "consistent w" "i \<in> set (pendingRequests w)"
  shows "delivered (fire (TimeoutFires i) w) i = Some (Rejected RequestTimeout)"
proof -
  from assms have t: "i \<in> timers w" and n: "i \<notin> fst ` set (settled w)"
    by (auto simp: consistent_def)
  from n have "map_of (settled w) i = None" by (simp add: map_of_eq_None_iff)
  then show ?thesis
    using t by (simp add: delivered_def onTimeout_def settle_def pendingDelete_def map_add_Some_iff)
qed

text \<open>
  Claim C6, as it is stated, fails in two places. First, a path calls the continuation of
  an entry already removed: the callback of \<open>socket.write\<close> rejects the request without
  looking whether its entry is still pending. Here request 1 times out (its entry is
  removed and its continuation called with \<open>'Request timeout'\<close>), and then the callback of
  its write reports an error: the continuation of request 1 is called a second time, with
  \<open>'Write error'\<close>. Second, the one resolution that a caller receives can be another than
  the four named: the write error, when the write fails while the request is pending, and
  the invalid-subheader error, when the response bears another subheader.
\<close>

theorem late_write_error_counterexample:
  "pendingRequests (run [CallConnect, SocketConnected 0, CallSendRequest [0x54, 0x00], TimeoutFires 1]
                      (initial \<lparr>plcType = Q, timeout = 5000\<rparr>)) = [] \<and>
   settled (run [CallConnect, SocketConnected 0, CallSendRequest [0x54, 0x00], TimeoutFires 1]
              (initial \<lparr>plcType = Q, timeout = 5000\<rparr>)) = [(1, Rejected RequestTimeout)] \<and>
   settled (fire (WriteCallback 1 True)
             (run [CallConnect, SocketConnected 0, CallSendRequest [0x54, 0x00], TimeoutFires 1]
                (initial \<lparr>plcType = Q, timeout = 5000\<rparr>)))
     = [(1, Rejected RequestTimeout), (1, Rejected WriteError)] \<and>
   delivered (run [CallConnect, SocketConnected 0, CallSendRequest [0x54, 0x00], WriteCallback 1 True]
                (initial \<lparr>plcType = Q, timeout = 5000\<rparr>)) 1
     = Some (Rejected WriteError) \<and>
   delivered (run [CallConnect, SocketConnected 0, CallSendRequest [0x54, 0x00],
                   SocketData 0 [0, 0, 0, 0, 0, 0, 0, 0xff, 0xff, 3, 0, 0, 0]]
                (initial \<lparr>plcType = Q, timeout = 5000\<rparr>)) 1
     = Some (Rejected (InvalidSubheader 0))"
  by code_simp

text \<open>
  Claim C6, amended. After any sequence of calls and callbacks, started from the initial
  state: the pending set holds each request once; every request id handed out so far is
  either still pending, with its timer armed and nothing delivered to its caller, or it
  is neither pending nor timed and exactly one resolution has been delivered to its
  caller, which is the response, a validation error (PLC error, invalid subheader), the
  request timeout, the closed connection or the write error; a resolution once delivered
  is never changed by what happens later; while a request is pending, the firing of its
  timer delivers the request timeout; and every event other than the callback of a write
  (so a timer firing, a completed response and the teardown) calls the continuations of
  exactly the entries that it removes from the pending set, once each, and of no entry
  that was removed before.
\<close>

theorem one_resolution:
  "distinct (pendingRequests (run es (initial opts))) \<and>
   (i \<in> {1..requestCounter (run es (initial opts))} \<longrightarrow>
      (i \<in> set (pendingRequests (run es (initial opts))) \<and> i \<in> timers (run es (initial opts)) \<and>
       delivered (run es (initial opts)) i = None) \<or>
      (i \<notin> set (pendingRequests (run es (initial opts))) \<and> i \<notin> timers (run es (initial opts)) \<and>
       (\<exists>r. delivered (run es (initial opts)) i = Some r \<and> madeByTheCode r))) \<and>
   (delivered (run es (initial opts)) i = Some r \<longrightarrow>
      delivered (run later (run es (initial opts))) i = Some r) \<and>
   (i \<in> set (pendingRequests (run es (initial opts))) \<longrightarrow>
      delivered (fire (TimeoutFires i) (run es (initial opts))) i = Some (Rejected RequestTimeout)) \<and>
   ((\<forall>k err. e \<noteq> WriteCallback k err) \<longrightarrow>
      (\<exists>new. settled (fire e (run es (initial opts))) = settled (run es (initial opts)) @ new \<and>
         distinct (map fst new) \<and>
         fst ` set new = set (pendingRequests (run es (initial opts)))
                          - set (pendingRequests (fire e (run es (initial opts))))))"
proof -
  have c: "consistent (run es (initial opts))"
    by (rule consistent_run [OF consistent_initial])
  then have d: "distinct (pendingRequests (run es (initial opts)))"
    by (simp add: consistent_def)
  from d pending_or_delivered [OF c] delivered_stays [OF c] timeout_delivers [OF c]
    calls_of_fire [OF c]
  show ?thesis by (intro conjI impI)
qed

theorem one_resolution_witness:
  "delivered (run [WriteCallback 1 True]
               (run [CallConnect, SocketConnected 0, CallSendRequest [0x54, 0x00], TimeoutFires 1]
                  (initial \<lparr>plcType = Q, timeout = 5000\<rparr>))) 1
     = Some (Rejected RequestTimeout) \<and>
   (\<exists>r. delivered (run [CallConnect, SocketConnected 0, CallSendRequest [0x54, 0x00], TimeoutFires 1]
                     (initial \<lparr>plcType = Q, timeout = 5000\<rparr>)) 1 = Some r \<and> madeByTheCode r) \<and>
   delivered (fire (TimeoutFires 1)
               (run [CallConnect, SocketConnected 0, CallSendRequest [0x54, 0x00]]
                  (initial \<lparr>plcType = Q, timeout = 5000\<rparr>))) 1
     = Some (Rejected RequestTimeout) \<and>
   (\<exists>new. settled (fire (SocketClose 0)
                    (run [CallConnect, SocketConnected 0, CallSendRequest [1], CallSendRequest [2]]
                       (initial \<lparr>plcType = Q, timeout = 5000\<rparr>)))
            = settled (run [CallConnect, SocketConnected 0, CallSendRequest [1], CallSendRequest [2]]
                         (initial \<lparr>plcType = Q, timeout = 5000\<rparr>)) @ new \<and>
          distinct (map fst new) \<and> fst ` set new = {1, 2})"
proof -
  define I where "I = initial \<lparr>plcType = Q, timeout = 5000\<rparr>"
  define T where "T = [CallConnect, SocketConnected 0, CallSendRequest [0x54, 0x00], TimeoutFires 1]"
  define U where "U = [CallConnect, SocketConnected 0, CallSendRequest [0x54, 0x00]]"
  define V where "V = [CallConnect, SocketConnected 0, CallSendRequest [1], CallSendRequest [2]]"
  have d: "delivered (run T I) 1 = Some (Rejected RequestTimeout)"
    unfolding T_def I_def by code_simp
  have c: "requestCounter (run T I) = 1" unfolding T_def I_def by code_simp
  have p: "pendingRequests (run U I) = [1]" unfolding U_def I_def by code_simp
  have v: "pendingRequests (run V I) = [1, 2]" "pendingRequests (fire (SocketClose 0) (run V I)) = []"
    unfolding V_def I_def by code_simp+
  have 1: "delivered (run [WriteCallback 1 True] (run T I)) 1 = Some (Rejected RequestTimeout)"
    using one_resolution [of T "\<lparr>plcType = Q, timeout = 5000\<rparr>" 1 "Rejected RequestTimeout"
        "[WriteCallback 1 True]"] d
    unfolding I_def by blast
  have "(1::nat) \<in> {1..requestCounter (run T I)}" by (simp add: c)
  then have "(1 \<in> set (pendingRequests (run T I)) \<and> 1 \<in> timers (run T I) \<and>
               delivered (run T I) 1 = None) \<or>
             (1 \<notin> set (pendingRequests (run T I)) \<and> 1 \<notin> timers (run T I) \<and>
               (\<exists>r. delivered (run T I) 1 = Some r \<and> madeByTheCode r))"
    using one_resolution [of T "\<lparr>plcType = Q, timeout = 5000\<rparr>" 1]
    unfolding I_def by blast
  with d have 2: "\<exists>r. delivered (run T I) 1 = Some r \<and> madeByTheCode r" by auto
  have "1 \<in> set (pendingRequests (run U I))" by (simp add: p)
  then have 3: "delivered (fire (TimeoutFires 1) (run U I)) 1 = Some (Rejected RequestTimeout)"
    using one_resolution [of U "\<lparr>plcType = Q, timeout = 5000\<rparr>" 1]
    unfolding I_def by blast
  have "\<forall>k err. SocketClose 0 \<noteq> WriteCallback k err" by simp
  then have "\<exists>new. settled (fire (SocketClose 0) (run V I)) = settled (run V I) @ new \<and>
         distinct (map fst new) \<and>
         fst ` set new = set (pendingRequests (run V I))
                          - set (pendingRequests (fire (SocketClose 0) (run V I)))"
    using one_resolution [of V "\<lparr>plcType = Q, timeout = 5000\<rparr>" _ _ _ "SocketClose 0"]
    unfolding I_def by blast
  moreover have "set (pendingRequests (run V I))
                   - set (pendingRequests (fire (SocketClose 0) (run V I))) = {1, 2}"
    by (simp only: v) simp
  ultimately have 4: "\<exists>new. settled (fire (SocketClose 0) (run V I)) = settled (run V I) @ new \<and>
         distinct (map fst new) \<and> fst ` set new = {1, 2}"
    by (simp only:)
  from 1 2 3 4 show ?thesis unfolding I_def T_def U_def V_def by (intro conjI)
qed

end
